theory Spec2Isabelle
  imports Main "HOL-Library.AList" "HOL-Library.Sublist" "HOL-Library.Char_ord" "HOL-Library.List_Lexorder"
begin

section \<open>File operations of the Home Assistant MCP server\<close>

text \<open>
  The module \<^verbatim>\<open>ha_mcp/tools/tools_file_operations.py\<close> offers \<^verbatim>\<open>read_file\<close>,
  \<^verbatim>\<open>write_file\<close> and \<^verbatim>\<open>list_directory\<close> below the fixed directory \<^verbatim>\<open>/config\<close>.
  The three functions are embedded below together with the parts of \<^verbatim>\<open>str\<close>,
  \<^verbatim>\<open>pathlib\<close> and the operating system they call.

  Conventions of the embedding.
  \<^item> A Python \<^verbatim>\<open>str\<close> is a \<^typ>\<open>string\<close>; one \<^typ>\<open>char\<close> stands for one code point
    (U+0000 to U+00FF), so \<^const>\<open>length\<close> is Python's \<^verbatim>\<open>len\<close>.
  \<^item> A \<^verbatim>\<open>PurePosixPath\<close> is the list of its components. A relative path is the
    list itself; an absolute path is the list of the components below \<^verbatim>\<open>/\<close>.
  \<^item> The file system is a tree of directories, regular files and sockets. It has no
    symbolic links, no permissions and no size limits. A directory keeps its entries
    in the order in which \<^verbatim>\<open>os.listdir\<close> reports them.
  \<^item> An exception is a value of type \<open>exn\<close>; a function that can raise returns
    \<open>exn + 'a\<close>, with \<open>Inl\<close> for the exception.
\<close>

subsection \<open>Strings\<close>

text \<open>\<^verbatim>\<open>s.lstrip("/")\<close>: the leading characters that belong to the given set are removed.\<close>

definition lstrip :: "string \<Rightarrow> string \<Rightarrow> string" where
  "lstrip s chars = dropWhile (\<lambda>c. c \<in> set chars) s"

text \<open>\<^verbatim>\<open>s.startswith(t)\<close>.\<close>

definition startswith :: "string \<Rightarrow> string \<Rightarrow> bool" where
  "startswith s t = prefix t s"

text \<open>\<^verbatim>\<open>s.split("/")\<close>: the fields between the separators, empty fields included.\<close>

fun split :: "string \<Rightarrow> string list" where
  "split [] = [[]]"
| "split (c # cs) =
     (if c = CHR ''/'' then [] # split cs
      else (case split cs of [] \<Rightarrow> [[c]] | w # ws \<Rightarrow> (c # w) # ws))"

text \<open>\<^verbatim>\<open>"/".join(parts)\<close>.\<close>

fun join :: "string list \<Rightarrow> string" where
  "join [] = []"
| "join [x] = x"
| "join (x # y # ys) = x @ CHR ''/'' # join (y # ys)"

subsection \<open>The file system\<close>

text \<open>
  The bytes of a regular file are represented by the text they decode to under UTF-8
  (before any newline translation). \<open>Undecodable n msg\<close> stands for \<open>n\<close> bytes that
  are not valid UTF-8, \<open>msg\<close> being what the codec reports about them after the words
  \<^verbatim>\<open>'utf-8' codec can't decode byte\<close>.
\<close>

datatype contents = Text string | Undecodable nat string

datatype node = File contents | Dir "(string \<times> node) list" | Socket

datatype errno = ENOENT | ENXIO | EEXIST | ENOTDIR | EISDIR

text \<open>
  The exceptions the modelled calls raise. All of them are subclasses of
  \<^verbatim>\<open>Exception\<close>: \<^verbatim>\<open>OSError\<close> (with its errno and file name), \<^verbatim>\<open>ValueError\<close> and
  \<^verbatim>\<open>UnicodeDecodeError\<close> (with their messages, see \<open>str_exn\<close> below).
\<close>

datatype exn = OSError errno string | ValueError string | UnicodeDecodeError string

text \<open>The node at a physical path (a list of entry names from the root directory).\<close>

fun lookup :: "node \<Rightarrow> string list \<Rightarrow> node option" where
  "lookup n [] = Some n"
| "lookup n (c # cs) =
     (case n of
        Dir es \<Rightarrow> (case map_of es c of None \<Rightarrow> None | Some ch \<Rightarrow> lookup ch cs)
      | _ \<Rightarrow> None)"

text \<open>
  \<open>put fs p new\<close> stores \<open>new\<close> at the physical path \<open>p\<close>, whose parent is a
  directory of \<open>fs\<close>: an existing entry is replaced in place, a new one is appended.
\<close>

fun put :: "node \<Rightarrow> string list \<Rightarrow> node \<Rightarrow> node" where
  "put n [] new = new"
| "put n (c # cs) new =
     (case n of
        Dir es \<Rightarrow>
          (case map_of es c of
             None \<Rightarrow> (if cs = [] then Dir (es @ [(c, new)]) else n)
           | Some ch \<Rightarrow> Dir (AList.update c (put ch cs new) es))
      | _ \<Rightarrow> n)"

text \<open>
  Path resolution of the kernel, from the directory \<open>cur\<close>: every component is looked
  up in a directory, \<^verbatim>\<open>..\<close> leads to the parent (and from the root to the root). The
  result is the physical path that was reached.
\<close>

fun walk :: "node \<Rightarrow> string list \<Rightarrow> string list \<Rightarrow> errno + string list" where
  "walk fs cur [] = Inr cur"
| "walk fs cur (c # cs) =
     (case lookup fs cur of
        None \<Rightarrow> Inl ENOENT
      | Some (Dir es) \<Rightarrow>
          if c = ''..'' then walk fs (butlast cur) cs
          else (case map_of es c of
                  None \<Rightarrow> Inl ENOENT
                | Some ch \<Rightarrow> walk fs (cur @ [c]) cs)
      | Some _ \<Rightarrow> Inl ENOTDIR)"

text \<open>\<^verbatim>\<open>stat(2)\<close> on an absolute path.\<close>

definition os_stat :: "node \<Rightarrow> string list \<Rightarrow> errno + node" where
  "os_stat fs p =
     (case walk fs [] p of
        Inl e \<Rightarrow> Inl e
      | Inr q \<Rightarrow> (case lookup fs q of None \<Rightarrow> Inl ENOENT | Some n \<Rightarrow> Inr n))"

text \<open>\<^verbatim>\<open>mkdir(2)\<close>: the parent is resolved, the last component must be new.\<close>

definition os_mkdir :: "node \<Rightarrow> string list \<Rightarrow> errno + node" where
  "os_mkdir fs p =
     (if p = [] then Inl EEXIST
      else case walk fs [] (butlast p) of
        Inl e \<Rightarrow> Inl e
      | Inr d \<Rightarrow>
          (case lookup fs d of
             Some (Dir es) \<Rightarrow>
               if last p = ''..'' then Inl EEXIST
               else (case map_of es (last p) of
                       None \<Rightarrow> Inr (put fs (d @ [last p]) (Dir []))
                     | Some ch \<Rightarrow> Inl EEXIST)
           | Some _ \<Rightarrow> Inl ENOTDIR
           | None \<Rightarrow> Inl ENOENT))"

text \<open>
  \<^verbatim>\<open>open(p, O_WRONLY | O_CREAT | O_TRUNC)\<close>, writing \<open>data\<close> and closing: a regular
  file is replaced, a missing one is created in an existing directory.
\<close>

definition os_write :: "node \<Rightarrow> string list \<Rightarrow> contents \<Rightarrow> errno + node" where
  "os_write fs p data =
     (if p = [] then Inl EISDIR
      else case walk fs [] (butlast p) of
        Inl e \<Rightarrow> Inl e
      | Inr d \<Rightarrow>
          (case lookup fs d of
             Some (Dir es) \<Rightarrow>
               if last p = ''..'' then Inl EISDIR
               else (case map_of es (last p) of
                       None \<Rightarrow> Inr (put fs (d @ [last p]) (File data))
                     | Some (File old) \<Rightarrow> Inr (put fs (d @ [last p]) (File data))
                     | Some (Dir es') \<Rightarrow> Inl EISDIR
                     | Some Socket \<Rightarrow> Inl ENXIO)
           | Some _ \<Rightarrow> Inl ENOTDIR
           | None \<Rightarrow> Inl ENOENT))"

text \<open>\<^verbatim>\<open>os.listdir\<close>: the entry names of a directory, in the directory's order.\<close>

definition os_listdir :: "node \<Rightarrow> string list \<Rightarrow> errno + string list" where
  "os_listdir fs p =
     (case os_stat fs p of
        Inl e \<Rightarrow> Inl e
      | Inr (Dir es) \<Rightarrow> Inr (map fst es)
      | Inr _ \<Rightarrow> Inl ENOTDIR)"

text \<open>The length in bytes of the UTF-8 encoding of a text, and \<^verbatim>\<open>st_size\<close>.\<close>

definition utf8_length :: "string \<Rightarrow> nat" where
  "utf8_length s = sum_list (map (\<lambda>c. if (of_char c :: nat) < 128 then 1 else 2) s)"

fun st_size :: "node \<Rightarrow> nat" where
  "st_size (File (Text s)) = utf8_length s"
| "st_size (File (Undecodable n msg)) = n"
| "st_size (Dir es) = 4096"
| "st_size Socket = 0"

subsection \<open>pathlib\<close>

text \<open>
  \<^verbatim>\<open>Path(s)\<close> for a string that does not begin with \<^verbatim>\<open>/\<close>: a relative path whose
  components are the fields of \<open>s\<close>, the empty ones and \<^verbatim>\<open>.\<close> left out (\<^verbatim>\<open>..\<close> stays).
\<close>

definition Path :: "string \<Rightarrow> string list" where
  "Path s = filter (\<lambda>x. x \<noteq> [] \<and> x \<noteq> ''.'') (split s)"

text \<open>\<^verbatim>\<open>str(p)\<close> of a relative and of an absolute path.\<close>

definition str :: "string list \<Rightarrow> string" where
  "str p = (if p = [] then ''.'' else join p)"

definition str_abs :: "string list \<Rightarrow> string" where
  "str_abs p = CHR ''/'' # join p"

text \<open>\<^verbatim>\<open>p.parent\<close> and \<^verbatim>\<open>p.name\<close> of an absolute path; the parent of \<^verbatim>\<open>/\<close> is \<^verbatim>\<open>/\<close>.\<close>

definition parent :: "string list \<Rightarrow> string list" where
  "parent p = butlast p"

definition name :: "string list \<Rightarrow> string" where
  "name p = (if p = [] then [] else last p)"

text \<open>
  \<^verbatim>\<open>os.lstat\<close>: Python refuses a path with a NUL character by a \<^verbatim>\<open>ValueError\<close>
  before the kernel is asked. Without symbolic links \<^verbatim>\<open>lstat(2)\<close> is \<^verbatim>\<open>stat(2)\<close>.
\<close>

definition os_lstat :: "node \<Rightarrow> string list \<Rightarrow> exn + node" where
  "os_lstat fs p =
     (if list_ex (\<lambda>c. CHR 0x00 \<in> set c) p then Inl (ValueError ''embedded null byte'')
      else case os_stat fs p of
        Inl e \<Rightarrow> Inl (OSError e (str_abs p))
      | Inr n \<Rightarrow> Inr n)"

text \<open>
  \<^verbatim>\<open>posixpath._joinrealpath\<close> in its non-strict mode (CPython 3.10 to 3.12), the loop
  behind \<^verbatim>\<open>Path.resolve()\<close>: empty and \<^verbatim>\<open>.\<close> components are skipped, \<^verbatim>\<open>..\<close> drops the
  last component of the path built so far, any other component is appended after an
  \<^verbatim>\<open>lstat\<close> whose \<^verbatim>\<open>OSError\<close> is ignored and whose answer is never a link.
\<close>

fun joinrealpath :: "node \<Rightarrow> string list \<Rightarrow> string list \<Rightarrow> exn + string list" where
  "joinrealpath fs path [] = Inr path"
| "joinrealpath fs path (c # rest) =
     (if c = [] \<or> c = ''.'' then joinrealpath fs path rest
      else if c = ''..'' then joinrealpath fs (butlast path) rest
      else (case os_lstat fs (path @ [c]) of
              Inl (ValueError m) \<Rightarrow> Inl (ValueError m)
            | _ \<Rightarrow> joinrealpath fs (path @ [c]) rest))"

definition resolve :: "node \<Rightarrow> string list \<Rightarrow> exn + string list" where
  "resolve fs p = joinrealpath fs [] p"

text \<open>
  \<^verbatim>\<open>p.exists()\<close>, \<^verbatim>\<open>p.is_file()\<close>, \<^verbatim>\<open>p.is_dir()\<close>: a \<^verbatim>\<open>stat\<close> whose \<^verbatim>\<open>ENOENT\<close> and
  \<^verbatim>\<open>ENOTDIR\<close> mean no.
\<close>

definition exists :: "node \<Rightarrow> string list \<Rightarrow> bool" where
  "exists fs p = (case os_stat fs p of Inl e \<Rightarrow> False | Inr n \<Rightarrow> True)"

definition is_file :: "node \<Rightarrow> string list \<Rightarrow> bool" where
  "is_file fs p = (case os_stat fs p of Inr (File d) \<Rightarrow> True | _ \<Rightarrow> False)"

definition is_dir :: "node \<Rightarrow> string list \<Rightarrow> bool" where
  "is_dir fs p = (case os_stat fs p of Inr (Dir es) \<Rightarrow> True | _ \<Rightarrow> False)"

text \<open>
  Reading in text mode with the default \<^verbatim>\<open>newline=None\<close> translates \<^verbatim>\<open>\r\n\<close> and a
  lone \<^verbatim>\<open>\r\<close> to \<^verbatim>\<open>\n\<close> (universal newlines).
\<close>

fun universal_newlines :: "string \<Rightarrow> string" where
  "universal_newlines [] = []"
| "universal_newlines (c # cs) =
     (if c = CHR 0x0D then
        (case cs of
           [] \<Rightarrow> [CHR 0x0A]
         | d # ds \<Rightarrow>
             if d = CHR 0x0A then CHR 0x0A # universal_newlines ds
             else CHR 0x0A # universal_newlines cs)
      else c # universal_newlines cs)"

text \<open>\<^verbatim>\<open>p.read_text(encoding="utf-8")\<close>.\<close>

definition read_text :: "node \<Rightarrow> string list \<Rightarrow> exn + string" where
  "read_text fs p =
     (case os_stat fs p of
        Inl e \<Rightarrow> Inl (OSError e (str_abs p))
      | Inr (File (Text s)) \<Rightarrow> Inr (universal_newlines s)
      | Inr (File (Undecodable n msg)) \<Rightarrow> Inl (UnicodeDecodeError msg)
      | Inr (Dir es) \<Rightarrow> Inl (OSError EISDIR (str_abs p))
      | Inr Socket \<Rightarrow> Inl (OSError ENXIO (str_abs p)))"

text \<open>
  \<^verbatim>\<open>p.write_text(content, encoding="utf-8")\<close>: on POSIX the written \<^verbatim>\<open>\n\<close> stays
  \<^verbatim>\<open>\n\<close>, so the file holds the encoding of \<open>content\<close> itself.
\<close>

definition write_text :: "node \<Rightarrow> string list \<Rightarrow> string \<Rightarrow> exn + node" where
  "write_text fs p content =
     (case os_write fs p (Text content) of
        Inl e \<Rightarrow> Inl (OSError e (str_abs p))
      | Inr fs' \<Rightarrow> Inr fs')"

text \<open>
  \<^verbatim>\<open>p.mkdir(parents=True, exist_ok=True)\<close>. \<^verbatim>\<open>os.mkdir\<close> is tried first; on
  \<^verbatim>\<open>FileNotFoundError\<close> the parent is made in the same way and \<^verbatim>\<open>os.mkdir\<close> is tried
  again (now without \<^verbatim>\<open>parents\<close>); any other \<^verbatim>\<open>OSError\<close> is dropped when the path is a
  directory. The result is the exception raised, if any, and the file system reached.
\<close>

function mkdir :: "node \<Rightarrow> string list \<Rightarrow> exn option \<times> node" where
  "mkdir fs p =
     (case os_mkdir fs p of
        Inr fs' \<Rightarrow> (None, fs')
      | Inl e \<Rightarrow>
          if e = ENOENT then
            (if p = [] then (Some (OSError ENOENT (str_abs p)), fs)
             else (case mkdir fs (parent p) of
                     (Some x, fs1) \<Rightarrow> (Some x, fs1)
                   | (None, fs1) \<Rightarrow>
                       (case os_mkdir fs1 p of
                          Inr fs2 \<Rightarrow> (None, fs2)
                        | Inl e' \<Rightarrow>
                            if e' = ENOENT then (Some (OSError ENOENT (str_abs p)), fs1)
                            else if is_dir fs1 p then (None, fs1)
                            else (Some (OSError e' (str_abs p)), fs1))))
          else if is_dir fs p then (None, fs)
          else (Some (OSError e (str_abs p)), fs))"
  by pat_completeness auto
termination
  by (relation "measure (\<lambda>(fs, p). length p)") (auto simp: parent_def)

declare mkdir.simps [simp del]

text \<open>\<^verbatim>\<open>str(e)\<close> of an exception; the file name of an \<^verbatim>\<open>OSError\<close> is shown in quotes.\<close>

fun errno_number :: "errno \<Rightarrow> string" where
  "errno_number ENOENT = ''2''"
| "errno_number ENXIO = ''6''"
| "errno_number EEXIST = ''17''"
| "errno_number ENOTDIR = ''20''"
| "errno_number EISDIR = ''21''"

fun strerror :: "errno \<Rightarrow> string" where
  "strerror ENOENT = ''No such file or directory''"
| "strerror ENXIO = ''No such device or address''"
| "strerror EEXIST = ''File exists''"
| "strerror ENOTDIR = ''Not a directory''"
| "strerror EISDIR = ''Is a directory''"

fun str_exn :: "exn \<Rightarrow> string" where
  "str_exn (OSError e f) =
     ''[Errno '' @ errno_number e @ ''] '' @ strerror e @ '': '' @ [CHR 0x27] @ f @ [CHR 0x27]"
| "str_exn (ValueError m) = m"
| "str_exn (UnicodeDecodeError m) =
     [CHR 0x27] @ ''utf-8'' @ [CHR 0x27] @ '' codec can'' @ [CHR 0x27] @ ''t decode byte'' @ m"

subsection \<open>The three operations\<close>

text \<open>
  The dictionaries the operations return: \<^verbatim>\<open>{"success": False, "error": ...}\<close> is
  \<open>Failure\<close>; the three dictionaries with \<^verbatim>\<open>"success": True\<close> carry the fields
  \<^verbatim>\<open>content\<close>, \<^verbatim>\<open>path\<close>, \<^verbatim>\<open>size\<close> (read), \<^verbatim>\<open>path\<close>, \<^verbatim>\<open>size\<close> (write) and \<^verbatim>\<open>path\<close>,
  \<^verbatim>\<open>entries\<close>, \<^verbatim>\<open>count\<close> (list). An entry has the keys \<^verbatim>\<open>name\<close> and \<^verbatim>\<open>type\<close>, and
  \<^verbatim>\<open>size\<close> when it was set.
\<close>

record entry =
  entry_name :: string
  entry_type :: string
  entry_size :: "nat option"

datatype result =
    Failure string
  | Read_Success string string nat
  | Write_Success string nat
  | List_Success string "entry list" nat

text \<open>
  What an operation did to the file system besides probing it: the files it read, the
  directories it listed. (What \<^verbatim>\<open>write_file\<close> did shows in the file system it leaves.)
\<close>

datatype io = ReadText "string list" | ListDir "string list"

definition CONFIG_BASE :: "string list" where
  "CONFIG_BASE = [''config'']"

definition access_denied :: string where
  "access_denied = ''Access denied: Path outside /config directory''"

text \<open>
  The body of \<^verbatim>\<open>read_file\<close> (lines 27 to 58). \<^verbatim>\<open>CONFIG_BASE / clean_path\<close> appends the
  relative path to the base.
\<close>

definition read_file_body :: "node \<Rightarrow> string \<Rightarrow> (exn + result) \<times> io list" where
  "read_file_body fs path =
     (let clean_path = Path (lstrip path ''/'');
          full_path = CONFIG_BASE @ clean_path
      in case resolve fs full_path of
        Inl e \<Rightarrow> (Inl e, [])
      | Inr rf \<Rightarrow>
      (case resolve fs CONFIG_BASE of
        Inl e \<Rightarrow> (Inl e, [])
      | Inr rb \<Rightarrow>
          if \<not> startswith (str_abs rf) (str_abs rb) then (Inr (Failure access_denied), [])
          else if \<not> exists fs full_path then (Inr (Failure (''File not found: '' @ path)), [])
          else if \<not> is_file fs full_path then (Inr (Failure (''Not a file: '' @ path)), [])
          else (case read_text fs full_path of
                  Inl e \<Rightarrow> (Inl e, [ReadText full_path])
                | Inr content \<Rightarrow>
                    (Inr (Read_Success content (str clean_path) (length content)),
                     [ReadText full_path]))))"

text \<open>\<^verbatim>\<open>except Exception as e\<close> (lines 60 to 65): the exception becomes a failure.\<close>

definition read_file_run :: "node \<Rightarrow> string \<Rightarrow> result \<times> io list" where
  "read_file_run fs path =
     (case read_file_body fs path of
        (Inl e, log) \<Rightarrow> (Failure (str_exn e), log)
      | (Inr r, log) \<Rightarrow> (r, log))"

definition read_file :: "node \<Rightarrow> string \<Rightarrow> result" where
  "read_file fs path = fst (read_file_run fs path)"

definition read_file_io :: "node \<Rightarrow> string \<Rightarrow> io list" where
  "read_file_io fs path = snd (read_file_run fs path)"

text \<open>The body of \<^verbatim>\<open>write_file\<close> (lines 80 to 102), with the file system it leaves.\<close>

definition write_file_body :: "node \<Rightarrow> string \<Rightarrow> string \<Rightarrow> (exn + result) \<times> node" where
  "write_file_body fs path content =
     (let clean_path = Path (lstrip path ''/'');
          full_path = CONFIG_BASE @ clean_path
      in case resolve fs full_path of
        Inl e \<Rightarrow> (Inl e, fs)
      | Inr rf \<Rightarrow>
      (case resolve fs CONFIG_BASE of
        Inl e \<Rightarrow> (Inl e, fs)
      | Inr rb \<Rightarrow>
          if \<not> startswith (str_abs rf) (str_abs rb) then (Inr (Failure access_denied), fs)
          else (case mkdir fs (parent full_path) of
                  (Some e, fs1) \<Rightarrow> (Inl e, fs1)
                | (None, fs1) \<Rightarrow>
                    (case write_text fs1 full_path content of
                       Inl e \<Rightarrow> (Inl e, fs1)
                     | Inr fs2 \<Rightarrow>
                         (Inr (Write_Success (str clean_path) (length content)), fs2)))))"

definition write_file_run :: "node \<Rightarrow> string \<Rightarrow> string \<Rightarrow> result \<times> node" where
  "write_file_run fs path content =
     (case write_file_body fs path content of
        (Inl e, fs') \<Rightarrow> (Failure (str_exn e), fs')
      | (Inr r, fs') \<Rightarrow> (r, fs'))"

definition write_file :: "node \<Rightarrow> string \<Rightarrow> string \<Rightarrow> result" where
  "write_file fs path content = fst (write_file_run fs path content)"

definition write_file_fs :: "node \<Rightarrow> string \<Rightarrow> string \<Rightarrow> node" where
  "write_file_fs fs path content = snd (write_file_run fs path content)"

text \<open>
  The body of the loop of \<^verbatim>\<open>list_directory\<close> (lines 147 to 155) for one \<open>item\<close>, and
  the loop, which appends to \<open>entries\<close>.
\<close>

definition entry_of :: "node \<Rightarrow> string list \<Rightarrow> exn + entry" where
  "entry_of fs item =
     (let e = \<lparr>entry_name = name item,
               entry_type = (if is_dir fs item then ''directory'' else ''file''),
               entry_size = None\<rparr>
      in if is_file fs item then
           (case os_stat fs item of
              Inl er \<Rightarrow> Inl (OSError er (str_abs item))
            | Inr n \<Rightarrow> Inr (e\<lparr>entry_size := Some (st_size n)\<rparr>))
         else Inr e)"

fun entries_loop :: "node \<Rightarrow> string list list \<Rightarrow> entry list \<Rightarrow> exn + entry list" where
  "entries_loop fs [] entries = Inr entries"
| "entries_loop fs (item # items) entries =
     (case entry_of fs item of
        Inl e \<Rightarrow> Inl e
      | Inr en \<Rightarrow> entries_loop fs items (entries @ [en]))"

text \<open>
  \<^verbatim>\<open>full_path.iterdir()\<close> yields \<^verbatim>\<open>full_path / n\<close> for every name of \<^verbatim>\<open>os.listdir\<close>;
  \<^verbatim>\<open>sorted\<close> orders these paths, which compare as the lists of their components.
\<close>

definition iterdir :: "node \<Rightarrow> string list \<Rightarrow> exn + string list list" where
  "iterdir fs p =
     (case os_listdir fs p of
        Inl e \<Rightarrow> Inl (OSError e (str_abs p))
      | Inr ns \<Rightarrow> Inr (map (\<lambda>n. p @ [n]) ns))"

definition sorted_paths :: "string list list \<Rightarrow> string list list" where
  "sorted_paths ps = sort ps"

text \<open>The body of \<^verbatim>\<open>list_directory\<close> (lines 123 to 164).\<close>

definition list_directory_body :: "node \<Rightarrow> string \<Rightarrow> (exn + result) \<times> io list" where
  "list_directory_body fs path =
     (let clean_path = (if path \<noteq> [] then Path (lstrip path ''/'') else Path ''.'');
          full_path = CONFIG_BASE @ clean_path
      in case resolve fs full_path of
        Inl e \<Rightarrow> (Inl e, [])
      | Inr rf \<Rightarrow>
      (case resolve fs CONFIG_BASE of
        Inl e \<Rightarrow> (Inl e, [])
      | Inr rb \<Rightarrow>
          if \<not> startswith (str_abs rf) (str_abs rb) then (Inr (Failure access_denied), [])
          else if \<not> exists fs full_path then
            (Inr (Failure (''Directory not found: '' @ path)), [])
          else if \<not> is_dir fs full_path then
            (Inr (Failure (''Not a directory: '' @ path)), [])
          else (case iterdir fs full_path of
                  Inl e \<Rightarrow> (Inl e, [ListDir full_path])
                | Inr items \<Rightarrow>
                    (case entries_loop fs (sorted_paths items) [] of
                       Inl e \<Rightarrow> (Inl e, [ListDir full_path])
                     | Inr entries \<Rightarrow>
                         (Inr (List_Success
                                 (if str clean_path \<noteq> ''.'' then str clean_path else [])
                                 entries (length entries)),
                          [ListDir full_path])))))"

definition list_directory_run :: "node \<Rightarrow> string \<Rightarrow> result \<times> io list" where
  "list_directory_run fs path =
     (case list_directory_body fs path of
        (Inl e, log) \<Rightarrow> (Failure (str_exn e), log)
      | (Inr r, log) \<Rightarrow> (r, log))"

definition list_directory :: "node \<Rightarrow> string \<Rightarrow> result" where
  "list_directory fs path = fst (list_directory_run fs path)"

definition list_directory_io :: "node \<Rightarrow> string \<Rightarrow> io list" where
  "list_directory_io fs path = snd (list_directory_run fs path)"

subsection \<open>Well-formed file systems\<close>

text \<open>
  The names a directory can hold: not empty, not \<^verbatim>\<open>.\<close> or \<^verbatim>\<open>..\<close>, without \<^verbatim>\<open>/\<close> and
  without NUL. In a well-formed file system every directory holds valid, pairwise
  different names.
\<close>

definition valid_name :: "string \<Rightarrow> bool" where
  "valid_name n \<longleftrightarrow>
     n \<noteq> [] \<and> n \<noteq> ''.'' \<and> n \<noteq> ''..'' \<and> CHR ''/'' \<notin> set n \<and> CHR 0x00 \<notin> set n"

fun wf_node :: "node \<Rightarrow> bool" where
  "wf_node (Dir es) =
     (distinct (map fst es) \<and> (\<forall>x \<in> set es. valid_name (fst x) \<and> wf_node (snd x)))"
| "wf_node (File d) = True"
| "wf_node Socket = True"

text \<open>
  What lines 147 to 153 make of a child \<open>ch\<close> called \<open>c\<close>: a directory has the type
  \<^verbatim>\<open>directory\<close>, anything else the type \<^verbatim>\<open>file\<close>; a regular file has a size.
\<close>

definition entry_for :: "string \<Rightarrow> node \<Rightarrow> entry" where
  "entry_for c ch =
     \<lparr>entry_name = c,
      entry_type = (case ch of Dir es \<Rightarrow> ''directory'' | _ \<Rightarrow> ''file''),
      entry_size = (case ch of File d \<Rightarrow> Some (st_size ch) | _ \<Rightarrow> None)\<rparr>"

text \<open>
  \<open>extends fs fs'\<close>: whatever exists in \<open>fs\<close> exists in \<open>fs'\<close>, and the directories of
  \<open>fs\<close> are directories of \<open>fs'\<close>. Path resolution that succeeds in \<open>fs\<close> succeeds in
  \<open>fs'\<close> with the same result.
\<close>

definition extends :: "node \<Rightarrow> node \<Rightarrow> bool" where
  "extends fs fs' \<longleftrightarrow>
     (\<forall>x. (\<exists>es. lookup fs x = Some (Dir es)) \<longrightarrow> (\<exists>es'. lookup fs' x = Some (Dir es')))
     \<and> (\<forall>x. lookup fs x \<noteq> None \<longrightarrow> lookup fs' x \<noteq> None)"

text \<open>
  \<open>grows fs fs'\<close>: \<open>fs'\<close> is \<open>fs\<close> with more directories. What was missing is still
  missing or is a directory now, a directory is still a directory, and a file or a
  socket is unchanged.
\<close>

definition grows :: "node \<Rightarrow> node \<Rightarrow> bool" where
  "grows fs fs' \<longleftrightarrow>
     (\<forall>x. case lookup fs x of
            None \<Rightarrow> lookup fs' x = None \<or> (\<exists>es. lookup fs' x = Some (Dir es))
          | Some (Dir es) \<Rightarrow> (\<exists>es'. lookup fs' x = Some (Dir es'))
          | Some n \<Rightarrow> lookup fs' x = Some n)"

subsection \<open>Properties of paths\<close>

text \<open>
  The components that \<open>Path\<close> produces are \<open>clean\<close>: none is empty, none is \<^verbatim>\<open>.\<close>,
  none holds a separator. \<open>nul_free\<close>: no component holds a NUL character.
\<close>

definition clean :: "string list \<Rightarrow> bool" where
  "clean ps \<longleftrightarrow> (\<forall>x \<in> set ps. x \<noteq> [] \<and> x \<noteq> ''.'' \<and> CHR ''/'' \<notin> set x)"

definition nul_free :: "string list \<Rightarrow> bool" where
  "nul_free ps \<longleftrightarrow> \<not> list_ex (\<lambda>c. CHR 0x00 \<in> set c) ps"

text \<open>What lies at a physical path: nothing or a directory, nothing or a regular file, a directory.\<close>

definition missing_or_dir :: "node \<Rightarrow> string list \<Rightarrow> bool" where
  "missing_or_dir fs x = (case lookup fs x of None \<Rightarrow> True | Some (Dir es) \<Rightarrow> True | _ \<Rightarrow> False)"

definition missing_or_file :: "node \<Rightarrow> string list \<Rightarrow> bool" where
  "missing_or_file fs x = (case lookup fs x of None \<Rightarrow> True | Some (File d) \<Rightarrow> True | _ \<Rightarrow> False)"

definition directory_at :: "node \<Rightarrow> string list \<Rightarrow> bool" where
  "directory_at fs x = (case lookup fs x of Some (Dir es) \<Rightarrow> True | _ \<Rightarrow> False)"

text \<open>
  The place that a list of components names, counted from \<open>cur\<close>: \<^verbatim>\<open>..\<close> drops the last
  component, any other component is appended. For the components that \<open>Path\<close>
  produces this is the path that \<open>resolve\<close> returns.
\<close>

fun normpath :: "string list \<Rightarrow> string list \<Rightarrow> string list" where
  "normpath cur [] = cur"
| "normpath cur (c # cs) = normpath (if c = ''..'' then butlast cur else cur @ [c]) cs"

subsection \<open>Example file systems\<close>

text \<open>
  A file system with \<^verbatim>\<open>/config\<close>, a sibling \<^verbatim>\<open>/config2\<close> and \<^verbatim>\<open>/etc\<close>. The directory
  \<^verbatim>\<open>/config\<close> holds a text file, an empty directory, a socket and a directory with a
  file that is not valid UTF-8; its entries are not in alphabetical order.
\<close>

definition example_fs :: node where
  "example_fs =
     Dir [(''config'',
           Dir [(''b'', File (Text ''hello'')),
                (''.storage'', Dir []),
                (''sock'', Socket),
                (''a'', Dir [(''z'', File (Undecodable 3 '' 0xff in position 0''))])]),
          (''config2'', Dir [(''secret'', File (Text ''s3cret''))]),
          (''etc'', Dir [(''passwd'', File (Text ''root''))])]"

text \<open>The same file system with the entries of \<^verbatim>\<open>/config\<close> in another order.\<close>

definition example_fs_reordered :: node where
  "example_fs_reordered =
     Dir [(''config'',
           Dir [(''sock'', Socket),
                (''a'', Dir [(''z'', File (Undecodable 3 '' 0xff in position 0''))]),
                (''b'', File (Text ''hello'')),
                (''.storage'', Dir [])]),
          (''config2'', Dir [(''secret'', File (Text ''s3cret''))]),
          (''etc'', Dir [(''passwd'', File (Text ''root''))])]"

text \<open>The entries that a listing of \<^verbatim>\<open>/config\<close> in these file systems reports.\<close>

definition example_entries :: "entry list" where
  "example_entries =
     [\<lparr>entry_name = ''.storage'', entry_type = ''directory'', entry_size = None\<rparr>,
      \<lparr>entry_name = ''a'', entry_type = ''directory'', entry_size = None\<rparr>,
      \<lparr>entry_name = ''b'', entry_type = ''file'', entry_size = Some 5\<rparr>,
      \<lparr>entry_name = ''sock'', entry_type = ''file'', entry_size = None\<rparr>]"

section \<open>Basic facts\<close>

lemma Path_empty [simp]: "Path [] = []" "Path ''.'' = []"
  by (simp_all add: Path_def)

lemma lstrip_Nil [simp]: "lstrip [] cs = []"
  by (simp add: lstrip_def)

lemma resolve_CONFIG_BASE [simp]: "resolve fs CONFIG_BASE = Inr CONFIG_BASE"
  by (simp add: resolve_def CONFIG_BASE_def os_lstat_def split: sum.splits exn.splits)

lemma startswith_refl [simp]: "startswith s s"
  by (simp add: startswith_def)

lemma is_dir_exists: "is_dir fs p \<Longrightarrow> exists fs p"
  by (auto simp: is_dir_def exists_def split: sum.splits)

lemma is_dir_not_file: "is_dir fs p \<Longrightarrow> \<not> is_file fs p"
  by (auto simp: is_dir_def is_file_def split: sum.splits node.splits)

lemma list_clean_path:
  "(if path \<noteq> [] then Path (lstrip path ''/'') else Path ''.'') = Path (lstrip path ''/'')"
  by simp

subsection \<open>The exception handlers\<close>

lemma read_file_conv:
  "read_file fs p = (case fst (read_file_body fs p) of Inl e \<Rightarrow> Failure (str_exn e) | Inr r \<Rightarrow> r)"
  by (simp add: read_file_def read_file_run_def split: prod.splits sum.splits)

lemma write_file_conv:
  "write_file fs p d = (case fst (write_file_body fs p d) of Inl e \<Rightarrow> Failure (str_exn e) | Inr r \<Rightarrow> r)"
  by (simp add: write_file_def write_file_run_def split: prod.splits sum.splits)

lemma list_directory_conv:
  "list_directory fs p = (case fst (list_directory_body fs p) of Inl e \<Rightarrow> Failure (str_exn e) | Inr r \<Rightarrow> r)"
  by (simp add: list_directory_def list_directory_run_def split: prod.splits sum.splits)

lemma read_body_shape:
  "fst (read_file_body fs p) = Inr r \<Longrightarrow> (\<exists>m. r = Failure m) \<or> (\<exists>c q n. r = Read_Success c q n)"
  unfolding read_file_body_def Let_def
  by (auto split: sum.splits if_splits)

lemma write_body_shape:
  "fst (write_file_body fs p d) = Inr r \<Longrightarrow> (\<exists>m. r = Failure m) \<or> (\<exists>q n. r = Write_Success q n)"
  unfolding write_file_body_def Let_def
  by (auto split: sum.splits if_splits prod.splits option.splits)

lemma list_body_shape:
  "fst (list_directory_body fs p) = Inr r \<Longrightarrow> (\<exists>m. r = Failure m) \<or> (\<exists>q es n. r = List_Success q es n)"
  unfolding list_directory_body_def Let_def
  by (auto split: sum.splits if_splits)

subsection \<open>Which exceptions the calls raise\<close>

lemma lstrip_replicate: "lstrip (replicate n (CHR ''/'') @ s) ''/'' = lstrip s ''/''"
  by (induction n) (simp_all add: lstrip_def)

lemma lstrip_no_leading: "\<not> startswith (lstrip s ''/'') ''/''"
  by (induction s) (simp_all add: startswith_def lstrip_def)

lemma os_lstat_ValueError: "os_lstat fs p = Inl (ValueError m) \<Longrightarrow> m = ''embedded null byte''"
  by (auto simp: os_lstat_def split: if_splits sum.splits)

lemma joinrealpath_Inl:
  "joinrealpath fs path rest = Inl e \<Longrightarrow> e = ValueError ''embedded null byte''"
proof (induction rest arbitrary: path)
  case Nil
  then show ?case by simp
next
  case (Cons c rest)
  show ?case
  proof (cases "c = [] \<or> c = ''.''")
    case True
    with Cons.prems have "joinrealpath fs path rest = Inl e" by simp
    then show ?thesis by (rule Cons.IH)
  next
    case False
    show ?thesis
    proof (cases "c = ''..''")
      case True
      with Cons.prems have "joinrealpath fs (butlast path) rest = Inl e" by simp
      then show ?thesis by (rule Cons.IH)
    next
      case dd: False
      show ?thesis
      proof (cases "\<exists>m. os_lstat fs (path @ [c]) = Inl (ValueError m)")
        case True
        then obtain m where m: "os_lstat fs (path @ [c]) = Inl (ValueError m)" by blast
        with Cons.prems False dd have "e = ValueError m" by simp
        with os_lstat_ValueError[OF m] show ?thesis by simp
      next
        case nv: False
        with Cons.prems False dd have "joinrealpath fs (path @ [c]) rest = Inl e"
          by (simp split: sum.splits exn.splits)
        then show ?thesis by (rule Cons.IH)
      qed
    qed
  qed
qed

lemma resolve_Inl: "resolve fs p = Inl e \<Longrightarrow> e = ValueError ''embedded null byte''"
  by (simp add: resolve_def joinrealpath_Inl)

lemma read_text_Inl:
  "read_text fs p = Inl e \<Longrightarrow> (\<exists>er f. e = OSError er f) \<or> (\<exists>m. e = UnicodeDecodeError m)"
  by (auto simp: read_text_def split: sum.splits node.splits contents.splits)

lemma write_text_Inl: "write_text fs p d = Inl e \<Longrightarrow> \<exists>er f. e = OSError er f"
  by (auto simp: write_text_def split: sum.splits)

lemma mkdir_unfold:
  "mkdir fs p =
     (case os_mkdir fs p of
        Inr fs' \<Rightarrow> (None, fs')
      | Inl e \<Rightarrow>
          if e = ENOENT then
            (if p = [] then (Some (OSError ENOENT (str_abs p)), fs)
             else (case mkdir fs (parent p) of
                     (Some x, fs1) \<Rightarrow> (Some x, fs1)
                   | (None, fs1) \<Rightarrow>
                       (case os_mkdir fs1 p of
                          Inr fs2 \<Rightarrow> (None, fs2)
                        | Inl e' \<Rightarrow>
                            if e' = ENOENT then (Some (OSError ENOENT (str_abs p)), fs1)
                            else if is_dir fs1 p then (None, fs1)
                            else (Some (OSError e' (str_abs p)), fs1))))
          else if is_dir fs p then (None, fs)
          else (Some (OSError e (str_abs p)), fs))"
  by (rule mkdir.simps)

lemma mkdir_Some: "mkdir fs p = (Some e, fs') \<Longrightarrow> \<exists>er f. e = OSError er f"
proof (induction fs p arbitrary: e fs' rule: mkdir.induct)
  case (1 fs p)
  show ?case
  proof (cases "os_mkdir fs p")
    case (Inr fs2)
    with "1.prems" show ?thesis by (simp add: mkdir_unfold[of fs p])
  next
    case (Inl er)
    show ?thesis
    proof (cases "er = ENOENT \<and> p \<noteq> []")
      case False
      with Inl "1.prems" show ?thesis
        by (auto simp add: mkdir_unfold[of fs p] split: if_splits)
    next
      case True
      obtain r fs1 where m: "mkdir fs (parent p) = (r, fs1)" by (cases "mkdir fs (parent p)")
      show ?thesis
      proof (cases r)
        case None
        with Inl True m "1.prems" show ?thesis
          by (auto simp add: mkdir_unfold[of fs p] split: if_splits sum.splits)
      next
        case (Some x)
        with Inl True m "1.prems" have "x = e"
          by (simp add: mkdir_unfold[of fs p])
        with "1.IH"[of er x fs1] Inl True m Some show ?thesis by simp
      qed
    qed
  qed
qed

lemma str_exn_not_denied:
  "(\<exists>er f. e = OSError er f) \<or> (\<exists>m. e = UnicodeDecodeError m) \<or> e = ValueError ''embedded null byte''
     \<Longrightarrow> str_exn e \<noteq> access_denied"
  by (auto simp: access_denied_def)

lemma entry_of_Inl: "entry_of fs item = Inl e \<Longrightarrow> \<exists>er f. e = OSError er f"
  by (auto simp: entry_of_def Let_def split: if_splits sum.splits)

lemma entries_loop_Inl: "entries_loop fs items acc = Inl e \<Longrightarrow> \<exists>er f. e = OSError er f"
proof (induction items arbitrary: acc)
  case Nil
  then show ?case by simp
next
  case (Cons item items)
  show ?case
  proof (cases "entry_of fs item")
    case (Inl x)
    with Cons.prems have "x = e" by simp
    with entry_of_Inl[OF Inl] show ?thesis by simp
  next
    case (Inr en)
    with Cons.prems have "entries_loop fs items (acc @ [en]) = Inl e" by simp
    then show ?thesis by (rule Cons.IH)
  qed
qed

lemma iterdir_Inl: "iterdir fs p = Inl e \<Longrightarrow> \<exists>er f. e = OSError er f"
  by (auto simp: iterdir_def split: sum.splits)


subsection \<open>The operations without the handler\<close>

lemma read_file_run_eq:
  "read_file_run fs p =
     (case resolve fs (CONFIG_BASE @ Path (lstrip p ''/'')) of
        Inl e \<Rightarrow> (Failure (str_exn e), [])
      | Inr rf \<Rightarrow>
          if \<not> startswith (str_abs rf) (str_abs CONFIG_BASE) then (Failure access_denied, [])
          else if \<not> exists fs (CONFIG_BASE @ Path (lstrip p ''/'')) then
            (Failure (''File not found: '' @ p), [])
          else if \<not> is_file fs (CONFIG_BASE @ Path (lstrip p ''/'')) then
            (Failure (''Not a file: '' @ p), [])
          else (case read_text fs (CONFIG_BASE @ Path (lstrip p ''/'')) of
                  Inl e \<Rightarrow> (Failure (str_exn e), [ReadText (CONFIG_BASE @ Path (lstrip p ''/''))])
                | Inr content \<Rightarrow>
                    (Read_Success content (str (Path (lstrip p ''/''))) (length content),
                     [ReadText (CONFIG_BASE @ Path (lstrip p ''/''))])))"
  by (simp add: read_file_run_def read_file_body_def Let_def split: sum.splits)

lemma write_file_run_eq:
  "write_file_run fs p d =
     (case resolve fs (CONFIG_BASE @ Path (lstrip p ''/'')) of
        Inl e \<Rightarrow> (Failure (str_exn e), fs)
      | Inr rf \<Rightarrow>
          if \<not> startswith (str_abs rf) (str_abs CONFIG_BASE) then (Failure access_denied, fs)
          else (case mkdir fs (parent (CONFIG_BASE @ Path (lstrip p ''/''))) of
                  (Some e, fs1) \<Rightarrow> (Failure (str_exn e), fs1)
                | (None, fs1) \<Rightarrow>
                    (case write_text fs1 (CONFIG_BASE @ Path (lstrip p ''/'')) d of
                       Inl e \<Rightarrow> (Failure (str_exn e), fs1)
                     | Inr fs2 \<Rightarrow>
                         (Write_Success (str (Path (lstrip p ''/''))) (length d), fs2))))"
  by (simp add: write_file_run_def write_file_body_def Let_def
        split: sum.splits prod.splits option.splits)

lemma list_directory_run_eq:
  "list_directory_run fs p =
     (case resolve fs (CONFIG_BASE @ Path (lstrip p ''/'')) of
        Inl e \<Rightarrow> (Failure (str_exn e), [])
      | Inr rf \<Rightarrow>
          if \<not> startswith (str_abs rf) (str_abs CONFIG_BASE) then (Failure access_denied, [])
          else if \<not> exists fs (CONFIG_BASE @ Path (lstrip p ''/'')) then
            (Failure (''Directory not found: '' @ p), [])
          else if \<not> is_dir fs (CONFIG_BASE @ Path (lstrip p ''/'')) then
            (Failure (''Not a directory: '' @ p), [])
          else (case iterdir fs (CONFIG_BASE @ Path (lstrip p ''/'')) of
                  Inl e \<Rightarrow> (Failure (str_exn e), [ListDir (CONFIG_BASE @ Path (lstrip p ''/''))])
                | Inr items \<Rightarrow>
                    (case entries_loop fs (sorted_paths items) [] of
                       Inl e \<Rightarrow> (Failure (str_exn e), [ListDir (CONFIG_BASE @ Path (lstrip p ''/''))])
                     | Inr entries \<Rightarrow>
                         (List_Success
                            (if str (Path (lstrip p ''/'')) \<noteq> ''.''
                             then str (Path (lstrip p ''/'')) else [])
                            entries (length entries),
                          [ListDir (CONFIG_BASE @ Path (lstrip p ''/''))]))))"
  by (simp add: list_directory_run_def list_directory_body_def Let_def list_clean_path
        split: sum.splits)

lemma read_not_denied:
  assumes "resolve fs (CONFIG_BASE @ Path (lstrip p ''/'')) = Inr rf"
    and "startswith (str_abs rf) (str_abs CONFIG_BASE)"
  shows "read_file fs p \<noteq> Failure access_denied"
proof (cases "read_text fs (CONFIG_BASE @ Path (lstrip p ''/''))")
  case (Inl e)
  from read_text_Inl[OF Inl] have "str_exn e \<noteq> access_denied"
    by (intro str_exn_not_denied) blast
  with Inl assms show ?thesis
    by (simp add: read_file_def read_file_run_eq access_denied_def)
next
  case (Inr c)
  with assms show ?thesis
    by (simp add: read_file_def read_file_run_eq access_denied_def)
qed

lemma write_not_denied:
  assumes "resolve fs (CONFIG_BASE @ Path (lstrip p ''/'')) = Inr rf"
    and "startswith (str_abs rf) (str_abs CONFIG_BASE)"
  shows "write_file fs p d \<noteq> Failure access_denied"
proof -
  obtain r fs1 where m: "mkdir fs (parent (CONFIG_BASE @ Path (lstrip p ''/''))) = (r, fs1)"
    by (cases "mkdir fs (parent (CONFIG_BASE @ Path (lstrip p ''/'')))")
  show ?thesis
  proof (cases r)
    case (Some e)
    from mkdir_Some[OF m[unfolded Some]] have "str_exn e \<noteq> access_denied"
      by (intro str_exn_not_denied) blast
    with Some m assms show ?thesis
      by (simp add: write_file_def write_file_run_eq)
  next
    case None
    show ?thesis
    proof (cases "write_text fs1 (CONFIG_BASE @ Path (lstrip p ''/'')) d")
      case (Inl e)
      from write_text_Inl[OF Inl] have "str_exn e \<noteq> access_denied"
        by (intro str_exn_not_denied) blast
      with Inl None m assms show ?thesis
        by (simp add: write_file_def write_file_run_eq)
    next
      case (Inr fs2)
      with None m assms show ?thesis
        by (simp add: write_file_def write_file_run_eq)
    qed
  qed
qed

lemma list_not_denied:
  assumes "resolve fs (CONFIG_BASE @ Path (lstrip p ''/'')) = Inr rf"
    and "startswith (str_abs rf) (str_abs CONFIG_BASE)"
  shows "list_directory fs p \<noteq> Failure access_denied"
proof (cases "iterdir fs (CONFIG_BASE @ Path (lstrip p ''/''))")
  case (Inl e)
  from iterdir_Inl[OF Inl] have "str_exn e \<noteq> access_denied"
    by (intro str_exn_not_denied) blast
  with Inl assms show ?thesis
    by (simp add: list_directory_def list_directory_run_eq access_denied_def)
next
  case (Inr items)
  show ?thesis
  proof (cases "entries_loop fs (sorted_paths items) []")
    case (Inl e)
    from entries_loop_Inl[OF Inl] have "str_exn e \<noteq> access_denied"
      by (intro str_exn_not_denied) blast
    with Inl Inr assms show ?thesis
      by (simp add: list_directory_def list_directory_run_eq access_denied_def)
  next
    case r: (Inr es)
    with Inr assms show ?thesis
      by (simp add: list_directory_def list_directory_run_eq access_denied_def)
  qed
qed

lemma etc_passwd_full:
  "CONFIG_BASE @ Path (lstrip ''/etc/passwd'' ''/'') = [''config'', ''etc'', ''passwd'']"
  by code_simp

lemma etc_passwd_resolve:
  "resolve fs [''config'', ''etc'', ''passwd''] = Inr [''config'', ''etc'', ''passwd'']"
  by (simp add: resolve_def os_lstat_def split: sum.splits exn.splits)

lemma etc_passwd_startswith:
  "startswith (str_abs [''config'', ''etc'', ''passwd'']) (str_abs CONFIG_BASE)"
  by code_simp



subsection \<open>Paths and directory listings\<close>

lemma lookup_append:
  "lookup fs (xs @ ys) = (case lookup fs xs of None \<Rightarrow> None | Some n \<Rightarrow> lookup n ys)"
  by (induction xs arbitrary: fs) (auto split: node.splits option.splits)

lemma walk_append:
  "walk fs cur (xs @ ys) = (case walk fs cur xs of Inl e \<Rightarrow> Inl e | Inr q \<Rightarrow> walk fs q ys)"
  by (induction xs arbitrary: cur) (auto split: node.splits option.splits)

lemma wf_lookup: "wf_node fs \<Longrightarrow> lookup fs q = Some n \<Longrightarrow> wf_node n"
proof (induction q arbitrary: fs)
  case Nil
  then show ?case by simp
next
  case (Cons c q)
  from Cons.prems(2) obtain es ch where fs: "fs = Dir es" and c: "map_of es c = Some ch"
    and l: "lookup ch q = Some n"
    by (auto split: node.splits option.splits)
  from c have "(c, ch) \<in> set es" by (rule map_of_SomeD)
  with Cons.prems(1) fs have "wf_node ch" by auto
  with l show ?case by (rule Cons.IH[rotated])
qed

lemma le_append_single: "(p @ [a] \<le> p @ [b]) \<longleftrightarrow> (a \<le> b)" for a b :: string
  by (induction p) auto

lemma insort_map_path:
  "insort (p @ [x]) (map (\<lambda>n. p @ [n]) xs) = map (\<lambda>n. p @ [n]) (insort x xs)" for x :: string
  by (induction xs) (auto simp: le_append_single)

lemma sort_map_path:
  "sort (map (\<lambda>n. p @ [n]) ns) = map (\<lambda>n. p @ [n]) (sort ns)" for ns :: "string list"
  by (induction ns) (simp_all add: insort_map_path)

lemma os_stat_walk:
  "os_stat fs p = Inr n \<longleftrightarrow> (\<exists>q. walk fs [] p = Inr q \<and> lookup fs q = Some n)"
  by (auto simp: os_stat_def split: sum.splits option.splits)

lemma walk_single:
  assumes "lookup fs q = Some (Dir es)" and "map_of es c = Some ch" and "c \<noteq> ''..''"
  shows "walk fs q [c] = Inr (q @ [c])" and "lookup fs (q @ [c]) = Some ch"
  using assms by (simp_all add: lookup_append)

lemma stat_child:
  assumes "walk fs [] p = Inr q" and "lookup fs q = Some (Dir es)"
    and "map_of es c = Some ch" and "c \<noteq> ''..''"
  shows "os_stat fs (p @ [c]) = Inr ch"
  using assms walk_single[OF assms(2-4)]
  by (simp add: os_stat_def walk_append)

lemma name_snoc [simp]: "name (p @ [c]) = c" "name (p @ p' @ [c]) = c"
  by (simp_all add: name_def)

lemma entry_of_child:
  assumes "os_stat fs item = Inr ch"
  shows "entry_of fs item = Inr (entry_for (name item) ch)"
  using assms
  by (cases ch) (simp_all add: entry_of_def entry_for_def is_dir_def is_file_def)

lemma entries_loop_map:
  "(\<And>item. item \<in> set items \<Longrightarrow> entry_of fs item = Inr (f item))
     \<Longrightarrow> entries_loop fs items acc = Inr (acc @ map f items)"
  by (induction items arbitrary: acc) simp_all

lemma wf_dir_names:
  assumes "wf_node (Dir es)"
  shows "distinct (map fst es)" and "c \<in> set (map fst es) \<Longrightarrow> valid_name c"
  using assms by auto

lemma listing:
  assumes wf: "wf_node fs"
    and st: "os_stat fs (CONFIG_BASE @ Path (lstrip p ''/'')) = Inr (Dir es)"
    and rs: "resolve fs (CONFIG_BASE @ Path (lstrip p ''/'')) = Inr rf"
    and sw: "startswith (str_abs rf) (str_abs CONFIG_BASE)"
  shows "list_directory_run fs p =
           (List_Success
              (if str (Path (lstrip p ''/'')) \<noteq> ''.'' then str (Path (lstrip p ''/'')) else [])
              (map (\<lambda>c. entry_for c (the (map_of es c))) (sort (map fst es)))
              (length es),
            [ListDir (CONFIG_BASE @ Path (lstrip p ''/''))])"
proof -
  let ?full = "CONFIG_BASE @ Path (lstrip p ''/'')"
  from st obtain q where w: "walk fs [] ?full = Inr q" and l: "lookup fs q = Some (Dir es)"
    by (auto simp: os_stat_walk)
  from wf_lookup[OF wf l] have wfd: "wf_node (Dir es)" .
  have ex: "exists fs ?full" and d: "is_dir fs ?full"
    using st by (simp_all add: exists_def is_dir_def)
  have it: "iterdir fs ?full = Inr (map (\<lambda>n. ?full @ [n]) (map fst es))"
    using st by (simp add: iterdir_def os_listdir_def)
  have sp: "sorted_paths (map (\<lambda>n. ?full @ [n]) (map fst es))
              = map (\<lambda>n. ?full @ [n]) (sort (map fst es))"
    unfolding sorted_paths_def by (rule sort_map_path)
  have en: "entry_of fs item = Inr (entry_for (name item) (the (map_of es (name item))))"
    if "item \<in> set (map (\<lambda>n. ?full @ [n]) (sort (map fst es)))" for item
  proof -
    from that obtain c where c: "c \<in> set (map fst es)" and item: "item = ?full @ [c]"
      by auto
    from c obtain ch where ch: "map_of es c = Some ch"
      by (cases "map_of es c") (auto simp: map_of_eq_None_iff)
    from wf_dir_names(2)[OF wfd c] have "c \<noteq> ''..''"
      by (auto simp: valid_name_def)
    from stat_child[OF w l ch this] have "os_stat fs item = Inr ch"
      by (simp add: item)
    from entry_of_child[OF this] ch show ?thesis
      by (simp add: item)
  qed
  have lp: "entries_loop fs (map (\<lambda>n. ?full @ [n]) (sort (map fst es))) []
              = Inr (map (\<lambda>c. entry_for c (the (map_of es c))) (sort (map fst es)))"
  proof -
    have "entries_loop fs (map (\<lambda>n. ?full @ [n]) (sort (map fst es))) []
            = Inr ([] @ map (\<lambda>item. entry_for (name item) (the (map_of es (name item))))
                          (map (\<lambda>n. ?full @ [n]) (sort (map fst es))))"
      by (rule entries_loop_map) (rule en)
    then show ?thesis by (simp add: comp_def)
  qed
  show ?thesis
    unfolding list_directory_run_eq
    using rs sw ex d it sp lp by simp
qed

lemma list_success_check:
  assumes "list_directory fs p = List_Success q entries n"
  shows "\<exists>rf. resolve fs (CONFIG_BASE @ Path (lstrip p ''/'')) = Inr rf
              \<and> startswith (str_abs rf) (str_abs CONFIG_BASE)"
proof (cases "resolve fs (CONFIG_BASE @ Path (lstrip p ''/''))")
  case (Inl e)
  with assms show ?thesis
    unfolding list_directory_def list_directory_run_eq by simp
next
  case (Inr rf)
  with assms show ?thesis
    unfolding list_directory_def list_directory_run_eq by (auto split: if_splits)
qed

lemma listing_entries:
  assumes wf: "wf_node fs"
    and ok: "list_directory fs p = List_Success q entries n"
    and st: "os_stat fs (CONFIG_BASE @ Path (lstrip p ''/'')) = Inr (Dir es)"
  shows "entries = map (\<lambda>c. entry_for c (the (map_of es c))) (sort (map fst es))"
    and "n = length es"
    and "q = (if str (Path (lstrip p ''/'')) \<noteq> ''.'' then str (Path (lstrip p ''/'')) else [])"
proof -
  from list_success_check[OF ok] obtain rf
    where rs: "resolve fs (CONFIG_BASE @ Path (lstrip p ''/'')) = Inr rf"
      and sw: "startswith (str_abs rf) (str_abs CONFIG_BASE)" by blast
  from listing[OF wf st rs sw] ok
  show "entries = map (\<lambda>c. entry_for c (the (map_of es c))) (sort (map fst es))"
    and "n = length es"
    and "q = (if str (Path (lstrip p ''/'')) \<noteq> ''.'' then str (Path (lstrip p ''/'')) else [])"
    by (simp_all add: list_directory_def)
qed

lemma entry_for_simps [simp]:
  "entry_name (entry_for c ch) = c"
  "entry_type (entry_for c (Dir es)) = ''directory''"
  "entry_type (entry_for c (File d)) = ''file''"
  "entry_type (entry_for c Socket) = ''file''"
  "entry_size (entry_for c (Dir es)) = None"
  "entry_size (entry_for c (File d)) = Some (st_size (File d))"
  "entry_size (entry_for c Socket) = None"
  by (simp_all add: entry_for_def)

lemma map_of_distinct_mem:
  "distinct (map fst es) \<Longrightarrow> (c, ch) \<in> set es \<Longrightarrow> map_of es c = Some ch"
  by simp


lemma joinrealpath_fs_indep: "joinrealpath fs path rest = joinrealpath fs' path rest"
proof (induction rest arbitrary: path)
  case Nil
  show ?case by simp
next
  case (Cons c rest)
  have v: "os_lstat fs (path @ [c]) = Inl (ValueError m) \<longleftrightarrow> os_lstat fs' (path @ [c]) = Inl (ValueError m)" for m
    by (auto simp: os_lstat_def split: sum.splits)
  show ?case
  proof (cases "\<exists>m. os_lstat fs (path @ [c]) = Inl (ValueError m)")
    case True
    then obtain m where m: "os_lstat fs (path @ [c]) = Inl (ValueError m)" by blast
    with v[of m] have "os_lstat fs' (path @ [c]) = Inl (ValueError m)" by simp
    with m Cons.IH show ?thesis by simp
  next
    case False
    with v have "\<not> (\<exists>m. os_lstat fs' (path @ [c]) = Inl (ValueError m))" by simp
    with False Cons.IH show ?thesis
      by (auto split: sum.splits exn.splits)
  qed
qed

lemma resolve_fs_indep: "resolve fs p = resolve fs' p"
  unfolding resolve_def by (rule joinrealpath_fs_indep)

lemma same_children:
  assumes d: "distinct (map fst es)" and d': "distinct (map fst es')" and s: "set es' = set es"
  shows "map_of es' = map_of es" and "sort (map fst es') = sort (map fst es)"
    and "length es' = length es"
proof -
  show "map_of es' = map_of es"
    using map_of_inject_set[OF d' d] s by simp
  have ss: "set (map fst es') = set (map fst es)" using s by simp
  show "sort (map fst es') = sort (map fst es)"
    by (rule sorted_distinct_set_unique) (simp_all add: d d' s)
  have "length (map fst es') = length (map fst es)"
    using distinct_card[OF d] distinct_card[OF d'] ss by simp
  then show "length es' = length es" by simp
qed


subsection \<open>Path resolution in a file system that grows\<close>

lemma extends_refl: "extends fs fs"
  by (simp add: extends_def)

lemma extends_trans: "extends a b \<Longrightarrow> extends b c \<Longrightarrow> extends a c"
  unfolding extends_def by blast

lemma lookup_snoc:
  "lookup fs (q @ [c]) = (case lookup fs q of Some (Dir es) \<Rightarrow> map_of es c | _ \<Rightarrow> None)"
  by (simp add: lookup_append split: option.splits node.splits)

lemma walk_step:
  "walk fs cur (c # cs) =
     (case lookup fs cur of
        None \<Rightarrow> Inl ENOENT
      | Some (Dir es) \<Rightarrow>
          if c = ''..'' then walk fs (butlast cur) cs
          else if lookup fs (cur @ [c]) = None then Inl ENOENT
          else walk fs (cur @ [c]) cs
      | Some _ \<Rightarrow> Inl ENOTDIR)"
  by (simp add: lookup_snoc split: option.splits node.splits)

lemma walk_mono:
  "extends fs fs' \<Longrightarrow> walk fs cur ps = Inr q \<Longrightarrow> walk fs' cur ps = Inr q"
proof (induction ps arbitrary: cur)
  case Nil
  then show ?case by simp
next
  case (Cons c cs)
  from Cons.prems(2) obtain es where d: "lookup fs cur = Some (Dir es)"
    by (auto simp: walk_step simp del: walk.simps(2) split: option.splits node.splits)
  with Cons.prems(1) obtain es' where d': "lookup fs' cur = Some (Dir es')"
    unfolding extends_def by blast
  show ?case
  proof (cases "c = ''..''")
    case True
    with Cons.prems(2) d have "walk fs (butlast cur) cs = Inr q" by (simp add: walk_step del: walk.simps(2))
    from Cons.IH[OF Cons.prems(1) this] True d' show ?thesis by (simp add: walk_step del: walk.simps(2))
  next
    case False
    with Cons.prems(2) d have ne: "lookup fs (cur @ [c]) \<noteq> None"
      and w: "walk fs (cur @ [c]) cs = Inr q"
      by (auto simp: walk_step simp del: walk.simps(2) split: if_splits)
    from ne Cons.prems(1) have "lookup fs' (cur @ [c]) \<noteq> None"
      unfolding extends_def by blast
    with Cons.IH[OF Cons.prems(1) w] False d' show ?thesis by (simp add: walk_step del: walk.simps(2))
  qed
qed

lemma map_of_update [simp]: "map_of (AList.update k v al) = (map_of al)(k \<mapsto> v)"
  by (rule update_conv')

lemma map_of_snoc_other: "y \<noteq> c \<Longrightarrow> map_of (es @ [(c, v)]) y = map_of es y"
  by (induction es) auto

lemma map_of_snoc_same: "map_of es c = None \<Longrightarrow> map_of (es @ [(c, v)]) c = Some v"
  by (induction es) auto

lemma put_Dir_Cons:
  "put (Dir es) (c # cs) new =
     (case map_of es c of
        None \<Rightarrow> (if cs = [] then Dir (es @ [(c, new)]) else Dir es)
      | Some ch \<Rightarrow> Dir (AList.update c (put ch cs new) es))"
  by simp

lemma lookup_put_same:
  "lookup fs d = Some (Dir es) \<Longrightarrow> lookup (put fs (d @ [c]) new) (d @ [c]) = Some new"
proof (induction d arbitrary: fs)
  case Nil
  then show ?case
    by (auto simp: map_of_snoc_same simp del: map_of_append split: option.splits)
next
  case (Cons a d)
  from Cons.prems obtain es0 ch where fs: "fs = Dir es0" and a: "map_of es0 a = Some ch"
    and l: "lookup ch d = Some (Dir es)"
    by (auto split: node.splits option.splits)
  from Cons.IH[OF l] fs a show ?case by simp
qed

lemma lookup_put_other:
  assumes "lookup fs d = Some (Dir es)" and "\<not> prefix (d @ [c]) x"
  shows "(lookup (put fs (d @ [c]) new) x = None \<longleftrightarrow> lookup fs x = None)
       \<and> ((\<exists>es'. lookup (put fs (d @ [c]) new) x = Some (Dir es')) \<longleftrightarrow> (\<exists>es'. lookup fs x = Some (Dir es')))
       \<and> (\<not> prefix x d \<longrightarrow> lookup (put fs (d @ [c]) new) x = lookup fs x)"
  using assms
proof (induction d arbitrary: fs x)
  case Nil
  then obtain fs: "fs = Dir es" by simp
  show ?case
  proof (cases x)
    case Nil
    with fs show ?thesis by (simp split: option.splits)
  next
    case (Cons y ys)
    with Nil.prems(2) have "y \<noteq> c" by simp
    with Cons fs show ?thesis
      by (simp add: map_of_snoc_other del: map_of_append split: option.splits)
  qed
next
  case (Cons a d)
  from Cons.prems(1) obtain es0 ch where fs: "fs = Dir es0" and a: "map_of es0 a = Some ch"
    and l: "lookup ch d = Some (Dir es)"
    by (auto split: node.splits option.splits)
  show ?case
  proof (cases x)
    case Nil
    with fs a show ?thesis by simp
  next
    case x: (Cons y ys)
    show ?thesis
    proof (cases "y = a")
      case False
      with x fs a show ?thesis by simp
    next
      case True
      with x Cons.prems(2) have np: "\<not> prefix (d @ [c]) ys" by simp
      from Cons.IH[OF l np] True x fs a show ?thesis by simp
    qed
  qed
qed

lemma lookup_below:
  assumes "lookup fs (p @ y) = Some n" and "y \<noteq> []"
  shows "\<exists>es. lookup fs p = Some (Dir es)"
proof -
  from assms(2) obtain a l where y: "y = a # l" by (cases y) auto
  from assms(1) show ?thesis
    unfolding lookup_append y
    by (cases "lookup fs p") (auto split: node.splits)
qed

lemma extends_put:
  assumes d: "lookup fs d = Some (Dir es)"
    and old: "\<forall>es'. lookup fs (d @ [c]) \<noteq> Some (Dir es')"
  shows "extends fs (put fs (d @ [c]) new)"
  unfolding extends_def
proof (intro conjI allI impI)
  fix x assume "\<exists>es. lookup fs x = Some (Dir es)"
  then obtain ex where ex: "lookup fs x = Some (Dir ex)" by blast
  have "\<not> prefix (d @ [c]) x"
  proof
    assume "prefix (d @ [c]) x"
    then obtain y where x: "x = (d @ [c]) @ y" by (auto simp: prefix_def)
    show False
    proof (cases "y = []")
      case True
      with x ex old show False by simp
    next
      case False
      from lookup_below[OF ex[unfolded x] False] old show False by blast
    qed
  qed
  from lookup_put_other[OF d this, of new] ex
  show "\<exists>es'. lookup (put fs (d @ [c]) new) x = Some (Dir es')" by blast
next
  fix x assume ne: "lookup fs x \<noteq> None"
  show "lookup (put fs (d @ [c]) new) x \<noteq> None"
  proof (cases "prefix (d @ [c]) x")
    case False
    from lookup_put_other[OF d this, of new] ne show ?thesis by blast
  next
    case True
    then obtain y where x: "x = (d @ [c]) @ y" by (auto simp: prefix_def)
    from ne obtain n where n: "lookup fs x = Some n" by blast
    have "y = []"
    proof (rule ccontr)
      assume "y \<noteq> []"
      from lookup_below[OF n[unfolded x] this] old show False by blast
    qed
    with x lookup_put_same[OF d, of c new] show ?thesis by simp
  qed
qed

lemma os_write_stat:
  assumes "os_write fs p data = Inr fs'"
  shows "os_stat fs' p = Inr (File data) \<and> extends fs fs'"
proof -
  from assms have ne: "p \<noteq> []"
    by (auto simp: os_write_def split: if_splits)
  from assms ne obtain d where w: "walk fs [] (butlast p) = Inr d"
    by (cases "walk fs [] (butlast p)") (auto simp: os_write_def)
  from assms ne w obtain es where l: "lookup fs d = Some (Dir es)"
    by (cases "lookup fs d") (auto simp: os_write_def split: node.splits)
  from assms ne w l have dd: "last p \<noteq> ''..''"
    by (auto simp: os_write_def split: if_splits)
  from assms ne w l dd have old: "\<forall>es'. map_of es (last p) \<noteq> Some (Dir es')"
    and fs': "fs' = put fs (d @ [last p]) (File data)"
    by (auto simp: os_write_def split: option.splits node.splits)
  from old l have old': "\<forall>es'. lookup fs (d @ [last p]) \<noteq> Some (Dir es')"
    by (simp add: lookup_snoc)
  have ext: "extends fs fs'"
    unfolding fs' by (rule extends_put[OF l old'])
  from walk_mono[OF ext w] have w': "walk fs' [] (butlast p) = Inr d" .
  have new: "lookup fs' (d @ [last p]) = Some (File data)"
    unfolding fs' by (rule lookup_put_same[OF l])
  from l ext obtain es2 where l2: "lookup fs' d = Some (Dir es2)"
    unfolding extends_def by blast
  have "walk fs' [] (butlast p @ [last p]) = Inr (d @ [last p])"
    using w' l2 new dd by (simp add: walk_append walk_step del: walk.simps(2))
  with ne new have "os_stat fs' p = Inr (File data)"
    by (simp add: os_stat_def)
  with ext show ?thesis by simp
qed

lemma universal_newlines_id: "CHR 0x0D \<notin> set s \<Longrightarrow> universal_newlines s = s"
  by (induction s) auto

lemma write_success_steps:
  assumes "write_file fs p c = Write_Success q n"
  shows "\<exists>rf fs1. resolve fs (CONFIG_BASE @ Path (lstrip p ''/'')) = Inr rf
           \<and> startswith (str_abs rf) (str_abs CONFIG_BASE)
           \<and> mkdir fs (parent (CONFIG_BASE @ Path (lstrip p ''/''))) = (None, fs1)
           \<and> os_write fs1 (CONFIG_BASE @ Path (lstrip p ''/'')) (Text c)
               = Inr (write_file_fs fs p c)
           \<and> q = str (Path (lstrip p ''/'')) \<and> n = length c"
proof -
  let ?full = "CONFIG_BASE @ Path (lstrip p ''/'')"
  obtain r fs1 where m: "mkdir fs (parent ?full) = (r, fs1)"
    by (cases "mkdir fs (parent ?full)")
  from assms obtain rf where rs: "resolve fs ?full = Inr rf"
    unfolding write_file_def write_file_run_eq
    by (cases "resolve fs ?full") auto
  from assms rs have sw: "startswith (str_abs rf) (str_abs CONFIG_BASE)"
    unfolding write_file_def write_file_run_eq
    by (auto split: if_splits)
  from assms rs sw m have r: "r = None"
    unfolding write_file_def write_file_run_eq
    by (cases r) auto
  from assms rs sw m r obtain fs2 where wt: "write_text fs1 ?full c = Inr fs2"
    unfolding write_file_def write_file_run_eq
    by (cases "write_text fs1 ?full c") auto
  from assms rs sw m r wt have qn: "q = str (Path (lstrip p ''/''))" "n = length c"
    unfolding write_file_def write_file_run_eq by auto
  from rs sw m r wt have "write_file_fs fs p c = fs2"
    unfolding write_file_fs_def write_file_run_eq by simp
  moreover from wt have "os_write fs1 ?full (Text c) = Inr fs2"
    by (auto simp: write_text_def split: sum.splits)
  ultimately show ?thesis using rs sw m r qn by auto
qed


subsection \<open>Splitting and joining\<close>

lemma split_no_sep: "CHR ''/'' \<notin> set x \<Longrightarrow> split x = [x]"
  by (induction x) auto

lemma split_append_sep: "CHR ''/'' \<notin> set x \<Longrightarrow> split (x @ CHR ''/'' # r) = x # split r"
  by (induction x) auto

lemma split_join:
  "xs \<noteq> [] \<Longrightarrow> \<forall>x \<in> set xs. CHR ''/'' \<notin> set x \<Longrightarrow> split (join xs) = xs"
proof (induction xs rule: join.induct)
  case 1
  then show ?case by simp
next
  case (2 x)
  then show ?case by (simp add: split_no_sep)
next
  case (3 x y ys)
  then show ?case by (simp add: split_append_sep)
qed

lemma split_not_Nil [simp]: "split s \<noteq> []"
  by (induction s) (auto split: list.splits)

lemma split_fields: "x \<in> set (split s) \<Longrightarrow> CHR ''/'' \<notin> set x"
proof (induction s arbitrary: x)
  case Nil
  then show ?case by simp
next
  case (Cons c cs)
  show ?case
  proof (cases "c = CHR ''/''")
    case True
    with Cons show ?thesis by auto
  next
    case False
    obtain w ws where s: "split cs = w # ws"
      by (cases "split cs") auto
    with Cons.prems False have "x = c # w \<or> x \<in> set ws" by auto
    then show ?thesis
    proof
      assume "x = c # w"
      moreover from Cons.IH[of w] s have "CHR ''/'' \<notin> set w" by simp
      ultimately show ?thesis using False by auto
    next
      assume "x \<in> set ws"
      with Cons.IH[of x] s show ?thesis by simp
    qed
  qed
qed


lemma clean_Path: "clean (Path s)"
  by (auto simp: clean_def Path_def dest: split_fields)

lemma clean_simps [simp]:
  "clean []"
  "clean (x # xs) \<longleftrightarrow> x \<noteq> [] \<and> x \<noteq> ''.'' \<and> CHR ''/'' \<notin> set x \<and> clean xs"
  "clean (xs @ ys) \<longleftrightarrow> clean xs \<and> clean ys"
  by (auto simp: clean_def)

lemma clean_butlast: "clean xs \<Longrightarrow> clean (butlast xs)"
  by (auto simp: clean_def dest: in_set_butlastD)

lemma clean_CONFIG_BASE [simp]: "clean CONFIG_BASE"
  by (simp add: CONFIG_BASE_def)

lemma Path_join: "clean xs \<Longrightarrow> xs \<noteq> [] \<Longrightarrow> Path (join xs) = xs"
  unfolding Path_def clean_def
  by (subst split_join) (auto simp: filter_id_conv)

lemma join_starts:
  "xs \<noteq> [] \<Longrightarrow> hd xs \<noteq> [] \<Longrightarrow> \<exists>r. join xs = hd (hd xs) # r"
  by (induction xs rule: join.induct) (auto simp: neq_Nil_conv)

lemma lstrip_join: "clean xs \<Longrightarrow> xs \<noteq> [] \<Longrightarrow> lstrip (join xs) ''/'' = join xs"
proof -
  assume c: "clean xs" and ne: "xs \<noteq> []"
  then have h: "hd xs \<noteq> []" and s: "CHR ''/'' \<notin> set (hd xs)"
    by (auto simp: clean_def)
  from join_starts[OF ne h] obtain r where j: "join xs = hd (hd xs) # r" by blast
  from h s have "hd (hd xs) \<noteq> CHR ''/''" by (cases "hd xs") auto
  with j show ?thesis by (simp add: lstrip_def)
qed

lemma Path_str: "clean xs \<Longrightarrow> Path (lstrip (str xs) ''/'') = xs"
proof (cases "xs = []")
  case True
  then show ?thesis by (simp add: str_def lstrip_def)
next
  case False
  assume "clean xs"
  with False show ?thesis by (simp add: str_def lstrip_join Path_join)
qed

subsection \<open>Resolution by the kernel and by realpath\<close>

lemma nul_free_simps [simp]:
  "nul_free []"
  "nul_free (x # xs) \<longleftrightarrow> CHR 0x00 \<notin> set x \<and> nul_free xs"
  "nul_free (xs @ ys) \<longleftrightarrow> nul_free xs \<and> nul_free ys"
  by (auto simp: nul_free_def list_ex_iff)

lemma nul_free_butlast: "nul_free xs \<Longrightarrow> nul_free (butlast xs)"
  by (auto simp: nul_free_def list_ex_iff dest: in_set_butlastD)

lemma joinrealpath_step:
  "joinrealpath fs path (c # rest) =
     (if c = [] \<or> c = ''.'' then joinrealpath fs path rest
      else if c = ''..'' then joinrealpath fs (butlast path) rest
      else if \<not> nul_free (path @ [c]) then Inl (ValueError ''embedded null byte'')
      else joinrealpath fs (path @ [c]) rest)"
  by (auto simp: os_lstat_def nul_free_def split: sum.splits exn.splits)

lemma joinrealpath_props:
  assumes "joinrealpath fs cur ps = Inr q"
  shows "(clean cur \<and> clean ps \<longrightarrow> clean q)
       \<and> (''..'' \<notin> set cur \<longrightarrow> ''..'' \<notin> set q)
       \<and> (nul_free cur \<longrightarrow> nul_free q)"
  using assms
proof (induction ps arbitrary: cur)
  case Nil
  then show ?case by simp
next
  case (Cons c ps)
  show ?case
  proof (cases "c = [] \<or> c = ''.''")
    case True
    with Cons.prems have "joinrealpath fs cur ps = Inr q"
      by (simp add: joinrealpath_step del: joinrealpath.simps(2))
    from Cons.IH[OF this] True show ?thesis by auto
  next
    case False
    show ?thesis
    proof (cases "c = ''..''")
      case True
      with Cons.prems have "joinrealpath fs (butlast cur) ps = Inr q"
        by (simp add: joinrealpath_step del: joinrealpath.simps(2))
      from Cons.IH[OF this] True show ?thesis
        by (auto dest: in_set_butlastD clean_butlast nul_free_butlast)
    next
      case dd: False
      with False Cons.prems have nf: "nul_free (cur @ [c])"
        and j: "joinrealpath fs (cur @ [c]) ps = Inr q"
        by (auto simp: joinrealpath_step simp del: joinrealpath.simps(2) split: if_splits)
      from Cons.IH[OF j] False dd nf show ?thesis by auto
    qed
  qed
qed

lemma walk_resolve:
  "walk fs cur ps = Inr q \<Longrightarrow> clean ps \<Longrightarrow> joinrealpath fs' cur ps = Inr q' \<Longrightarrow> q' = q"
proof (induction ps arbitrary: cur)
  case Nil
  then show ?case by simp
next
  case (Cons c ps)
  from Cons.prems(2) have c: "c \<noteq> []" "c \<noteq> ''.''" and cl: "clean ps" by simp_all
  from Cons.prems(1) obtain es where d: "lookup fs cur = Some (Dir es)"
    by (auto simp: walk_step simp del: walk.simps(2) split: option.splits node.splits)
  show ?case
  proof (cases "c = ''..''")
    case True
    with Cons.prems(1) d have w: "walk fs (butlast cur) ps = Inr q"
      by (simp add: walk_step del: walk.simps(2))
    from True Cons.prems(3) have j: "joinrealpath fs' (butlast cur) ps = Inr q'"
      by (simp add: joinrealpath_step del: joinrealpath.simps(2))
    from Cons.IH[OF w cl j] show ?thesis .
  next
    case False
    with Cons.prems(1) d have w: "walk fs (cur @ [c]) ps = Inr q"
      by (auto simp: walk_step simp del: walk.simps(2) split: if_splits)
    from False c Cons.prems(3) have j: "joinrealpath fs' (cur @ [c]) ps = Inr q'"
      by (auto simp: joinrealpath_step simp del: joinrealpath.simps(2) split: if_splits)
    from Cons.IH[OF w cl j] show ?thesis .
  qed
qed

lemma joinrealpath_canonical:
  "clean ps \<Longrightarrow> ''..'' \<notin> set ps \<Longrightarrow> nul_free (cur @ ps)
     \<Longrightarrow> joinrealpath fs cur ps = Inr (cur @ ps)"
proof (induction ps arbitrary: cur)
  case Nil
  then show ?case by simp
next
  case (Cons c ps)
  from Cons.prems have "joinrealpath fs (cur @ [c]) ps = Inr ((cur @ [c]) @ ps)"
    by (intro Cons.IH) simp_all
  with Cons.prems show ?case
    by (auto simp: joinrealpath_step simp del: joinrealpath.simps(2))
qed

lemma walk_canonical:
  "''..'' \<notin> set ps \<Longrightarrow> lookup fs (cur @ ps) = Some n \<Longrightarrow> walk fs cur ps = Inr (cur @ ps)"
proof (induction ps arbitrary: cur)
  case Nil
  then show ?case by simp
next
  case (Cons c ps)
  from Cons.prems(2) have l: "lookup fs (cur @ (c # ps)) = Some n" .
  from lookup_below[OF l] obtain es where d: "lookup fs cur = Some (Dir es)" by auto
  have ch: "lookup fs (cur @ [c]) \<noteq> None"
  proof (cases "ps = []")
    case True
    with l show ?thesis by simp
  next
    case False
    from l have "lookup fs ((cur @ [c]) @ ps) = Some n" by simp
    from lookup_below[OF this False] show ?thesis by auto
  qed
  from Cons.prems have "walk fs (cur @ [c]) ps = Inr ((cur @ [c]) @ ps)"
    by (intro Cons.IH) simp_all
  with Cons.prems(1) d ch show ?case
    by (auto simp: walk_step simp del: walk.simps(2))
qed

lemma os_stat_canonical:
  "''..'' \<notin> set ps \<Longrightarrow> lookup fs ps = Some n \<Longrightarrow> os_stat fs ps = Inr n"
  using walk_canonical[of ps fs "[]" n] by (simp add: os_stat_def)

lemma resolved_target:
  assumes st: "os_stat fs p = Inr n" and cl: "clean p" and rs: "resolve fs p = Inr rf"
  shows "walk fs [] p = Inr rf" and "walk fs [] rf = Inr rf" and "lookup fs rf = Some n"
    and "os_stat fs rf = Inr n" and "clean rf" and "''..'' \<notin> set rf" and "nul_free rf"
proof -
  from st obtain q where w: "walk fs [] p = Inr q" and l: "lookup fs q = Some n"
    by (auto simp: os_stat_walk)
  from walk_resolve[OF w cl rs[unfolded resolve_def]] have q: "rf = q" .
  from joinrealpath_props[OF rs[unfolded resolve_def]] cl
  show c: "clean rf" and dd: "''..'' \<notin> set rf" and "nul_free rf" by simp_all
  from w q show "walk fs [] p = Inr rf" by simp
  from l q show l': "lookup fs rf = Some n" by simp
  from walk_canonical[of rf fs "[]" n] dd l' show "walk fs [] rf = Inr rf" by simp
  from os_stat_canonical[OF dd l'] show "os_stat fs rf = Inr n" .
qed

subsection \<open>Operations on the resolved path\<close>

lemma read_success_steps:
  assumes "read_file fs p = Read_Success c q n"
  shows "\<exists>rf. resolve fs (CONFIG_BASE @ Path (lstrip p ''/'')) = Inr rf
           \<and> startswith (str_abs rf) (str_abs CONFIG_BASE)
           \<and> is_file fs (CONFIG_BASE @ Path (lstrip p ''/''))
           \<and> read_text fs (CONFIG_BASE @ Path (lstrip p ''/'')) = Inr c
           \<and> q = str (Path (lstrip p ''/'')) \<and> n = length c"
proof -
  let ?full = "CONFIG_BASE @ Path (lstrip p ''/'')"
  from assms obtain rf where rs: "resolve fs ?full = Inr rf"
    unfolding read_file_def read_file_run_eq
    by (cases "resolve fs ?full") auto
  from assms rs have c: "startswith (str_abs rf) (str_abs CONFIG_BASE)"
    "exists fs ?full" "is_file fs ?full"
    unfolding read_file_def read_file_run_eq
    by (auto split: if_splits)
  from assms rs c obtain c' where rt: "read_text fs ?full = Inr c'"
    unfolding read_file_def read_file_run_eq
    by (cases "read_text fs ?full") auto
  from assms rs c rt have "c' = c" "q = str (Path (lstrip p ''/''))" "n = length c"
    unfolding read_file_def read_file_run_eq by auto
  with rs c rt show ?thesis by auto
qed

lemma list_success_steps:
  assumes "list_directory fs p = List_Success q entries n"
  shows "\<exists>rf items. resolve fs (CONFIG_BASE @ Path (lstrip p ''/'')) = Inr rf
           \<and> startswith (str_abs rf) (str_abs CONFIG_BASE)
           \<and> is_dir fs (CONFIG_BASE @ Path (lstrip p ''/''))
           \<and> iterdir fs (CONFIG_BASE @ Path (lstrip p ''/'')) = Inr items
           \<and> entries_loop fs (sorted_paths items) [] = Inr entries
           \<and> q = (if str (Path (lstrip p ''/'')) \<noteq> ''.'' then str (Path (lstrip p ''/'')) else [])
           \<and> n = length entries"
proof -
  let ?full = "CONFIG_BASE @ Path (lstrip p ''/'')"
  from assms obtain rf where rs: "resolve fs ?full = Inr rf"
    unfolding list_directory_def list_directory_run_eq
    by (cases "resolve fs ?full") auto
  from assms rs have c: "startswith (str_abs rf) (str_abs CONFIG_BASE)"
    "exists fs ?full" "is_dir fs ?full"
    unfolding list_directory_def list_directory_run_eq
    by (auto split: if_splits)
  from assms rs c obtain items where it: "iterdir fs ?full = Inr items"
    unfolding list_directory_def list_directory_run_eq
    by (cases "iterdir fs ?full") auto
  from assms rs c it obtain es where lp: "entries_loop fs (sorted_paths items) [] = Inr es"
    unfolding list_directory_def list_directory_run_eq
    by (cases "entries_loop fs (sorted_paths items) []") auto
  from assms rs c it lp have "es = entries"
    "q = (if str (Path (lstrip p ''/'')) \<noteq> ''.'' then str (Path (lstrip p ''/'')) else [])"
    "n = length entries"
    unfolding list_directory_def list_directory_run_eq by auto
  with rs c it lp show ?thesis by auto
qed

lemma startswith_below_config: "startswith (str_abs (CONFIG_BASE @ qs)) (str_abs CONFIG_BASE)"
  by (cases qs) (simp_all add: startswith_def str_abs_def CONFIG_BASE_def)

lemma str_not_dot: "clean qs \<Longrightarrow> qs \<noteq> [] \<Longrightarrow> str qs \<noteq> ''.''"
proof
  assume c: "clean qs" and ne: "qs \<noteq> []" and "str qs = ''.''"
  with ne have "join qs = ''.''" by (simp add: str_def)
  with Path_join[OF c ne] ne show False by simp
qed

lemma str_Path_path:
  "(if str (Path s) \<noteq> ''.'' then str (Path s) else []) = (if Path s = [] then [] else str (Path s))"
  using str_not_dot[OF clean_Path, of s] by (auto simp: str_def)

lemma read_normalized:
  assumes rd: "read_file fs p = Read_Success c q n"
    and rs: "resolve fs (CONFIG_BASE @ Path (lstrip p ''/'')) = Inr (CONFIG_BASE @ qs)"
  shows "q = str (Path (lstrip p ''/'')) \<and> read_file fs (str qs) = Read_Success c (str qs) n"
proof -
  let ?full = "CONFIG_BASE @ Path (lstrip p ''/'')"
  let ?rf = "CONFIG_BASE @ qs"
  from read_success_steps[OF rd] rs
  have f: "is_file fs ?full" and rt: "read_text fs ?full = Inr c"
    and q: "q = str (Path (lstrip p ''/''))" and n: "n = length c" by auto
  from f obtain nd where st: "os_stat fs ?full = Inr nd"
    by (cases "os_stat fs ?full") (auto simp: is_file_def)
  have cl: "clean ?full" by (simp add: clean_Path)
  note t = resolved_target[OF st cl rs]
  from t(5) have cq: "clean qs" by simp
  have full': "CONFIG_BASE @ Path (lstrip (str qs) ''/'') = ?rf"
    by (simp add: Path_str[OF cq])
  have rs': "resolve fs ?rf = Inr ?rf"
    unfolding resolve_def using joinrealpath_canonical[of ?rf "[]" fs] t(5,6,7) by simp
  from t(4) st f rt have "exists fs ?rf" "is_file fs ?rf" "read_text fs ?rf = Inr c"
    by (auto simp: exists_def is_file_def read_text_def split: node.splits contents.splits)
  with rs' n have "read_file fs (str qs) = Read_Success c (str qs) n"
    unfolding read_file_def read_file_run_eq full'
    by (simp add: startswith_below_config Path_str[OF cq])
  with q show ?thesis by simp
qed

lemma entry_of_cong:
  "os_stat fs a = os_stat fs b \<Longrightarrow> name a = name b \<Longrightarrow> entry_of fs a = entry_of fs b"
  by (cases "os_stat fs b")
     (auto simp: entry_of_def is_dir_def is_file_def split: node.splits)

lemma entries_loop_cong:
  "(\<And>c. c \<in> set cs \<Longrightarrow> entry_of fs (a @ [c]) = entry_of fs (b @ [c]))
     \<Longrightarrow> entries_loop fs (map (\<lambda>c. a @ [c]) cs) acc = entries_loop fs (map (\<lambda>c. b @ [c]) cs) acc"
proof (induction cs arbitrary: acc)
  case Nil
  show ?case by simp
next
  case (Cons c cs)
  have e: "entry_of fs (a @ [c]) = entry_of fs (b @ [c])"
    by (rule Cons.prems) simp
  have "entries_loop fs (map (\<lambda>c. a @ [c]) cs) acc' = entries_loop fs (map (\<lambda>c. b @ [c]) cs) acc'"
    for acc'
    by (rule Cons.IH) (simp add: Cons.prems)
  with e show ?case by (simp split: sum.splits)
qed

lemma stat_child_same:
  assumes "walk fs [] a = Inr r" and "walk fs [] b = Inr r"
  shows "os_stat fs (a @ [c]) = os_stat fs (b @ [c])"
  using assms by (simp add: os_stat_def walk_append)

lemma list_normalized:
  assumes ls: "list_directory fs p = List_Success q entries n"
    and rs: "resolve fs (CONFIG_BASE @ Path (lstrip p ''/'')) = Inr (CONFIG_BASE @ qs)"
  shows "q = (if Path (lstrip p ''/'') = [] then [] else str (Path (lstrip p ''/'')))
       \<and> list_directory fs (str qs)
           = List_Success (if qs = [] then [] else str qs) entries n"
proof -
  let ?full = "CONFIG_BASE @ Path (lstrip p ''/'')"
  let ?rf = "CONFIG_BASE @ qs"
  from list_success_steps[OF ls] rs obtain items
    where d: "is_dir fs ?full" and it: "iterdir fs ?full = Inr items"
      and lp: "entries_loop fs (sorted_paths items) [] = Inr entries"
      and q: "q = (if str (Path (lstrip p ''/'')) \<noteq> ''.'' then str (Path (lstrip p ''/'')) else [])"
      and n: "n = length entries" by auto
  from d obtain es where st: "os_stat fs ?full = Inr (Dir es)"
    by (cases "os_stat fs ?full") (auto simp: is_dir_def split: node.splits)
  have cl: "clean ?full" by (simp add: clean_Path)
  note t = resolved_target[OF st cl rs]
  from t(5) have cq: "clean qs" by simp
  have full': "CONFIG_BASE @ Path (lstrip (str qs) ''/'') = ?rf"
    by (simp add: Path_str[OF cq])
  have rs': "resolve fs ?rf = Inr ?rf"
    unfolding resolve_def using joinrealpath_canonical[of ?rf "[]" fs] t(5,6,7) by simp
  from it st have items: "items = map (\<lambda>c. ?full @ [c]) (map fst es)"
    by (simp add: iterdir_def os_listdir_def)
  from t(4) have ex': "exists fs ?rf" and d': "is_dir fs ?rf"
    and it': "iterdir fs ?rf = Inr (map (\<lambda>c. ?rf @ [c]) (map fst es))"
    by (simp_all add: exists_def is_dir_def iterdir_def os_listdir_def)
  have "entries_loop fs (map (\<lambda>c. ?rf @ [c]) (sort (map fst es))) []
          = entries_loop fs (map (\<lambda>c. ?full @ [c]) (sort (map fst es))) []"
    by (rule entries_loop_cong)
       (intro entry_of_cong stat_child_same[OF t(2) t(1)], simp add: name_def)
  with lp have lp': "entries_loop fs (sorted_paths (map (\<lambda>c. ?rf @ [c]) (map fst es))) [] = Inr entries"
    unfolding items sorted_paths_def sort_map_path by simp
  have qp: "(if str qs \<noteq> ''.'' then str qs else []) = (if qs = [] then [] else str qs)"
    using str_not_dot[OF cq] by (auto simp: str_def)
  have "list_directory fs (str qs) = List_Success (if qs = [] then [] else str qs) entries n"
    unfolding list_directory_def list_directory_run_eq full' Path_str[OF cq] qp
    using rs' ex' d' it' lp' n by (simp add: startswith_below_config)
  with q show ?thesis by (simp add: str_Path_path)
qed

subsection \<open>Creating directories\<close>

lemma grows_refl: "grows fs fs"
  by (auto simp: grows_def split: option.splits node.splits)

lemma growsD:
  assumes "grows fs fs'"
  shows "lookup fs x = None \<Longrightarrow> lookup fs' x = None \<or> (\<exists>es. lookup fs' x = Some (Dir es))"
    and "lookup fs x = Some (Dir es) \<Longrightarrow> \<exists>es'. lookup fs' x = Some (Dir es')"
    and "lookup fs x = Some (File d) \<Longrightarrow> lookup fs' x = Some (File d)"
    and "lookup fs x = Some Socket \<Longrightarrow> lookup fs' x = Some Socket"
  using assms[unfolded grows_def, rule_format, of x]
  by (auto split: option.splits node.splits)

lemma growsI:
  assumes "\<And>x. lookup fs x = None \<Longrightarrow> lookup fs' x = None \<or> (\<exists>es. lookup fs' x = Some (Dir es))"
    and "\<And>x es. lookup fs x = Some (Dir es) \<Longrightarrow> \<exists>es'. lookup fs' x = Some (Dir es')"
    and "\<And>x d. lookup fs x = Some (File d) \<Longrightarrow> lookup fs' x = Some (File d)"
    and "\<And>x. lookup fs x = Some Socket \<Longrightarrow> lookup fs' x = Some Socket"
  shows "grows fs fs'"
  unfolding grows_def
proof
  fix x
  show "case lookup fs x of
            None \<Rightarrow> lookup fs' x = None \<or> (\<exists>es. lookup fs' x = Some (Dir es))
          | Some (Dir es) \<Rightarrow> (\<exists>es'. lookup fs' x = Some (Dir es'))
          | Some n \<Rightarrow> lookup fs' x = Some n"
    using assms[of x] by (auto split: option.splits node.splits)
qed

lemma grows_trans: "grows a b \<Longrightarrow> grows b c \<Longrightarrow> grows a c"
proof (rule growsI)
  fix x assume ab: "grows a b" and bc: "grows b c"
  { assume "lookup a x = None"
    with growsD(1)[OF ab this] growsD(1,2)[OF bc, of x]
    show "lookup c x = None \<or> (\<exists>es. lookup c x = Some (Dir es))" by blast }
  { fix es assume "lookup a x = Some (Dir es)"
    from growsD(2)[OF ab this] growsD(2)[OF bc, of x]
    show "\<exists>es'. lookup c x = Some (Dir es')" by blast }
  { fix d assume "lookup a x = Some (File d)"
    from growsD(3)[OF ab this] growsD(3)[OF bc, of x]
    show "lookup c x = Some (File d)" by blast }
  { assume "lookup a x = Some Socket"
    from growsD(4)[OF ab this] growsD(4)[OF bc, of x]
    show "lookup c x = Some Socket" by blast }
qed

lemma grows_extends: "grows fs fs' \<Longrightarrow> extends fs fs'"
  unfolding extends_def
proof (intro conjI allI impI)
  fix x assume g: "grows fs fs'"
  { assume "\<exists>es. lookup fs x = Some (Dir es)"
    with growsD(2)[OF g] show "\<exists>es'. lookup fs' x = Some (Dir es')" by blast }
  { assume "lookup fs x \<noteq> None"
    then obtain n where n: "lookup fs x = Some n" by blast
    with growsD(2,3,4)[OF g, of x] show "lookup fs' x \<noteq> None"
      by (cases n) auto }
qed

lemma lookup_prefix_Dir:
  assumes "lookup fs d = Some (Dir es)" and "prefix x d"
  shows "\<exists>es'. lookup fs x = Some (Dir es')"
proof -
  from assms(2) obtain y where d: "d = x @ y" by (auto simp: prefix_def)
  show ?thesis
  proof (cases "y = []")
    case True
    with d assms(1) show ?thesis by simp
  next
    case False
    from lookup_below[OF assms(1)[unfolded d] False] show ?thesis .
  qed
qed

lemma lookup_None_below: "lookup fs p = None \<Longrightarrow> lookup fs (p @ y) = None"
  by (simp add: lookup_append)

lemma lookup_put_new:
  assumes d: "lookup fs d = Some (Dir es)" and new: "lookup fs (d @ [c]) = None"
  shows "grows fs (put fs (d @ [c]) (Dir []))"
    and "lookup (put fs (d @ [c]) (Dir [])) (d @ [c]) = Some (Dir [])"
    and "lookup fs x = None \<Longrightarrow> lookup (put fs (d @ [c]) (Dir [])) x \<noteq> None \<Longrightarrow> x = d @ [c]"
proof -
  let ?fs' = "put fs (d @ [c]) (Dir [])"
  show same: "lookup ?fs' (d @ [c]) = Some (Dir [])"
    by (rule lookup_put_same[OF d])
  have below: "lookup ?fs' ((d @ [c]) @ y) = (if y = [] then Some (Dir []) else None)" for y
    unfolding lookup_append[of ?fs' "d @ [c]"] same by (cases y) simp_all
  have other: "\<not> prefix (d @ [c]) x \<Longrightarrow> \<not> prefix x d \<Longrightarrow> lookup ?fs' x = lookup fs x" for x
    using lookup_put_other[OF d, of c x "Dir []"] by blast
  have anc: "prefix x d \<Longrightarrow> \<exists>es'. lookup ?fs' x = Some (Dir es')" for x
  proof -
    assume p: "prefix x d"
    then have "\<not> prefix (d @ [c]) x" by (auto simp: prefix_def)
    from lookup_put_other[OF d this, of "Dir []"] lookup_prefix_Dir[OF d p]
    show ?thesis by blast
  qed
  show "grows fs ?fs'"
  proof (rule growsI)
    fix x
    consider (b) y where "x = (d @ [c]) @ y" | (a) "prefix x d"
      | (o) "\<not> prefix (d @ [c]) x" "\<not> prefix x d"
      by (auto simp: prefix_def)
    note cases = this
    { assume n: "lookup fs x = None"
      from cases show "lookup ?fs' x = None \<or> (\<exists>es. lookup ?fs' x = Some (Dir es))"
      proof cases
        case b then show ?thesis using below[of y] by auto
      next
        case a then show ?thesis using anc by blast
      next
        case o then show ?thesis using other n by simp
      qed }
    { fix es0 assume n: "lookup fs x = Some (Dir es0)"
      from cases show "\<exists>es'. lookup ?fs' x = Some (Dir es')"
      proof cases
        case b with n lookup_None_below[OF new, of y] show ?thesis by simp
      next
        case a then show ?thesis using anc by blast
      next
        case o then show ?thesis using other n by simp
      qed }
    { fix f assume n: "lookup fs x = Some (File f)"
      from cases show "lookup ?fs' x = Some (File f)"
      proof cases
        case b with n lookup_None_below[OF new, of y] show ?thesis by simp
      next
        case a with lookup_prefix_Dir[OF d a] n show ?thesis by simp
      next
        case o then show ?thesis using other n by simp
      qed }
    { assume n: "lookup fs x = Some Socket"
      from cases show "lookup ?fs' x = Some Socket"
      proof cases
        case b with n lookup_None_below[OF new, of y] show ?thesis by simp
      next
        case a with lookup_prefix_Dir[OF d a] n show ?thesis by simp
      next
        case o then show ?thesis using other n by simp
      qed }
  qed
  show "x = d @ [c]" if n: "lookup fs x = None" and nn: "lookup ?fs' x \<noteq> None"
  proof -
    consider (b) y where "x = (d @ [c]) @ y" | (a) "prefix x d"
      | (o) "\<not> prefix (d @ [c]) x" "\<not> prefix x d"
      by (auto simp: prefix_def)
    then show ?thesis
    proof cases
      case b with nn below[of y] show ?thesis by (auto split: if_splits)
    next
      case a with lookup_prefix_Dir[OF d a] n show ?thesis by simp
    next
      case o with other n nn show ?thesis by simp
    qed
  qed
qed

lemma directory_at_iff: "directory_at fs x \<longleftrightarrow> (\<exists>es. lookup fs x = Some (Dir es))"
  by (auto simp: directory_at_def split: option.splits node.splits)

lemma missing_or_dir_iff:
  "missing_or_dir fs x \<longleftrightarrow> lookup fs x = None \<or> (\<exists>es. lookup fs x = Some (Dir es))"
  by (auto simp: missing_or_dir_def split: option.splits node.splits)

lemma missing_or_file_iff:
  "missing_or_file fs x \<longleftrightarrow> lookup fs x = None \<or> (\<exists>d. lookup fs x = Some (File d))"
  by (auto simp: missing_or_file_def split: option.splits node.splits)

lemma os_mkdir_Inr:
  assumes "os_mkdir fs p = Inr fs'"
  shows "\<exists>d es. lookup fs d = Some (Dir es) \<and> lookup fs (d @ [last p]) = None
           \<and> fs' = put fs (d @ [last p]) (Dir [])"
proof -
  from assms have ne: "p \<noteq> []"
    by (auto simp: os_mkdir_def split: if_splits)
  from assms ne obtain d where w: "walk fs [] (butlast p) = Inr d"
    by (cases "walk fs [] (butlast p)") (auto simp: os_mkdir_def)
  from assms ne w obtain es where l: "lookup fs d = Some (Dir es)"
    by (cases "lookup fs d") (auto simp: os_mkdir_def split: node.splits)
  from assms ne w l have "map_of es (last p) = None" "fs' = put fs (d @ [last p]) (Dir [])"
    by (auto simp: os_mkdir_def split: if_splits option.splits)
  with l show ?thesis by (auto simp: lookup_snoc)
qed

lemma os_mkdir_grows: "os_mkdir fs p = Inr fs' \<Longrightarrow> grows fs fs'"
  using lookup_put_new(1) by (blast dest: os_mkdir_Inr)

lemma mkdir_grows: "mkdir fs p = (r, fs') \<Longrightarrow> grows fs fs'"
proof (induction fs p arbitrary: r fs' rule: mkdir.induct)
  case (1 fs p)
  show ?case
  proof (cases "os_mkdir fs p")
    case (Inr fs2)
    with "1.prems" have "fs' = fs2" by (simp add: mkdir_unfold[of fs p])
    with os_mkdir_grows[OF Inr] show ?thesis by simp
  next
    case (Inl e)
    show ?thesis
    proof (cases "e = ENOENT \<and> p \<noteq> []")
      case False
      with Inl "1.prems" have "fs' = fs"
        by (auto simp: mkdir_unfold[of fs p] split: if_splits)
      then show ?thesis by (simp add: grows_refl)
    next
      case True
      obtain r1 fs1 where m: "mkdir fs (parent p) = (r1, fs1)"
        by (cases "mkdir fs (parent p)")
      from "1.IH"[of e r1 fs1] Inl True m have g1: "grows fs fs1" by simp
      show ?thesis
      proof (cases r1)
        case (Some x)
        with Inl True m "1.prems" have "fs' = fs1" by (simp add: mkdir_unfold[of fs p])
        with g1 show ?thesis by simp
      next
        case None
        show ?thesis
        proof (cases "os_mkdir fs1 p")
          case (Inr fs2)
          with None Inl True m "1.prems" have "fs' = fs2" by (simp add: mkdir_unfold[of fs p])
          with os_mkdir_grows[OF Inr] g1 show ?thesis by (auto intro: grows_trans)
        next
          case i2: (Inl e2)
          with None Inl True m "1.prems" have "fs' = fs1"
            by (auto simp: mkdir_unfold[of fs p] split: if_splits)
          with g1 show ?thesis by simp
        qed
      qed
    qed
  qed
qed

lemma walk_canonical_ENOENT:
  "''..'' \<notin> set ps \<Longrightarrow> (\<forall>x. prefix x ps \<longrightarrow> missing_or_dir fs (cur @ x))
     \<Longrightarrow> lookup fs (cur @ ps) = None \<Longrightarrow> lookup fs cur \<noteq> None
     \<Longrightarrow> walk fs cur ps = Inl ENOENT"
proof (induction ps arbitrary: cur)
  case Nil
  then show ?case by simp
next
  case (Cons c cs)
  from Cons.prems(2)[rule_format, of "[]"] Cons.prems(4)
  obtain es where d: "lookup fs cur = Some (Dir es)"
    by (auto simp: missing_or_dir_iff)
  from Cons.prems(1) have c: "c \<noteq> ''..''" by auto
  show ?case
  proof (cases "lookup fs (cur @ [c]) = None")
    case True
    with d c show ?thesis by (simp add: walk_step del: walk.simps(2))
  next
    case False
    have "walk fs (cur @ [c]) cs = Inl ENOENT"
    proof (rule Cons.IH)
      show "''..'' \<notin> set cs" using Cons.prems(1) by simp
      show "\<forall>x. prefix x cs \<longrightarrow> missing_or_dir fs ((cur @ [c]) @ x)"
        using Cons.prems(2) by (auto dest: spec[where x = "c # _"])
      show "lookup fs ((cur @ [c]) @ cs) = None" using Cons.prems(3) by simp
      show "lookup fs (cur @ [c]) \<noteq> None" by (rule False)
    qed
    with d c False show ?thesis by (simp add: walk_step del: walk.simps(2))
  qed
qed

lemma os_mkdir_canonical:
  assumes "''..'' \<notin> set (ds @ [c])" and "lookup fs ds = Some (Dir es)"
  shows "os_mkdir fs (ds @ [c]) =
           (case lookup fs (ds @ [c]) of
              None \<Rightarrow> Inr (put fs (ds @ [c]) (Dir []))
            | Some n \<Rightarrow> Inl EEXIST)"
proof -
  from assms have "walk fs [] ds = Inr ds"
    using walk_canonical[of ds fs "[]"] by simp
  with assms show ?thesis
    by (auto simp: os_mkdir_def lookup_snoc split: option.splits)
qed

lemma walk_canonical_result:
  "''..'' \<notin> set ps \<Longrightarrow> walk fs cur ps = Inr q \<Longrightarrow> q = cur @ ps"
proof (induction ps arbitrary: cur)
  case Nil
  then show ?case by simp
next
  case (Cons c cs)
  from Cons.prems have "walk fs (cur @ [c]) cs = Inr q"
    by (auto simp: walk_step simp del: walk.simps(2) split: option.splits node.splits if_splits)
  with Cons.IH[of "cur @ [c]"] Cons.prems(1) show ?case by simp
qed

lemma is_dir_canonical: "''..'' \<notin> set p \<Longrightarrow> is_dir fs p \<longleftrightarrow> directory_at fs p"
proof (cases "lookup fs p")
  case None
  assume dd: "''..'' \<notin> set p"
  have "os_stat fs p \<noteq> Inr n" for n
  proof
    assume "os_stat fs p = Inr n"
    then obtain q where w: "walk fs [] p = Inr q" and l: "lookup fs q = Some n"
      by (auto simp: os_stat_walk)
    from walk_canonical_result[OF dd w] have "q = p" by simp
    with l None show False by simp
  qed
  with None show ?thesis
    by (cases "os_stat fs p") (auto simp: is_dir_def directory_at_def)
next
  case (Some n)
  assume "''..'' \<notin> set p"
  from os_stat_canonical[OF this Some] Some show ?thesis
    by (cases n) (simp_all add: is_dir_def directory_at_def)
qed

lemma mkdir_root:
  assumes "missing_or_dir fs []"
  shows "mkdir fs [] = (None, fs)"
proof -
  from assms obtain es where "fs = Dir es"
    by (cases fs) (auto simp: missing_or_dir_def)
  then have "is_dir fs []" by (simp add: is_dir_def os_stat_def)
  then show ?thesis by (simp add: mkdir_unfold[of fs "[]"] os_mkdir_def)
qed

lemma mkdir_canonical:
  assumes "''..'' \<notin> set d" and "\<forall>x. prefix x d \<longrightarrow> missing_or_dir fs x"
  shows "\<exists>fs1. mkdir fs d = (None, fs1) \<and> directory_at fs1 d \<and> grows fs fs1
           \<and> (\<forall>x. lookup fs x = None \<longrightarrow> lookup fs1 x \<noteq> None \<longrightarrow> prefix x d)
           \<and> (directory_at fs d \<longrightarrow> fs1 = fs)"
  using assms
proof (induction d rule: rev_induct)
  case Nil
  from Nil.prems(2) have r: "missing_or_dir fs []" by simp
  then have "directory_at fs []"
    by (simp add: missing_or_dir_iff directory_at_iff)
  with mkdir_root[OF r] show ?case by (auto simp: grows_refl)
next
  case (snoc c ds)
  from snoc.prems(1) have dd: "''..'' \<notin> set ds" and c: "c \<noteq> ''..''" by auto
  from snoc.prems(2) have pre: "\<forall>x. prefix x ds \<longrightarrow> missing_or_dir fs x"
    and md: "missing_or_dir fs (ds @ [c])" and mds: "missing_or_dir fs ds"
    by (auto simp: prefix_def)
  show ?case
  proof (cases "directory_at fs (ds @ [c])")
    case True
    then obtain e where e: "lookup fs (ds @ [c]) = Some (Dir e)"
      by (auto simp: directory_at_iff)
    from lookup_below[OF e] obtain es where l: "lookup fs ds = Some (Dir es)" by auto
    from os_mkdir_canonical[OF snoc.prems(1) l] e
    have "os_mkdir fs (ds @ [c]) = Inl EEXIST" by simp
    moreover from True have "is_dir fs (ds @ [c])"
      by (simp add: is_dir_canonical[OF snoc.prems(1)])
    ultimately have "mkdir fs (ds @ [c]) = (None, fs)"
      by (simp add: mkdir_unfold[of fs "ds @ [c]"])
    with True show ?thesis by (auto simp: grows_refl)
  next
    case False
    with md have n: "lookup fs (ds @ [c]) = None"
      by (auto simp: missing_or_dir_iff directory_at_iff)
    show ?thesis
    proof (cases "directory_at fs ds")
      case True
      then obtain es where l: "lookup fs ds = Some (Dir es)"
        by (auto simp: directory_at_iff)
      from os_mkdir_canonical[OF snoc.prems(1) l] n
      have "os_mkdir fs (ds @ [c]) = Inr (put fs (ds @ [c]) (Dir []))" by simp
      then have m: "mkdir fs (ds @ [c]) = (None, put fs (ds @ [c]) (Dir []))"
        by (simp add: mkdir_unfold[of fs "ds @ [c]"])
      note p = lookup_put_new[OF l n]
      from p(2) have "directory_at (put fs (ds @ [c]) (Dir [])) (ds @ [c])"
        by (simp add: directory_at_iff)
      with m p(1) p(3) False show ?thesis by auto
    next
      case nd: False
      with mds have nds: "lookup fs ds = None"
        by (auto simp: missing_or_dir_iff directory_at_iff)
      have "walk fs [] ds = Inl ENOENT"
        using walk_canonical_ENOENT[of ds fs "[]"] dd pre nds by simp
      then have e1: "os_mkdir fs (ds @ [c]) = Inl ENOENT"
        by (simp add: os_mkdir_def)
      from snoc.IH[OF dd pre] obtain fs1
        where m1: "mkdir fs ds = (None, fs1)" and d1: "directory_at fs1 ds"
          and g1: "grows fs fs1"
          and o1: "\<forall>x. lookup fs x = None \<longrightarrow> lookup fs1 x \<noteq> None \<longrightarrow> prefix x ds"
        by blast
      from d1 obtain es1 where l1: "lookup fs1 ds = Some (Dir es1)"
        by (auto simp: directory_at_iff)
      have n1: "lookup fs1 (ds @ [c]) = None"
      proof (rule ccontr)
        assume "lookup fs1 (ds @ [c]) \<noteq> None"
        with o1 n have "prefix (ds @ [c]) ds" by blast
        then show False by (auto simp: prefix_def)
      qed
      from os_mkdir_canonical[OF snoc.prems(1) l1] n1
      have e2: "os_mkdir fs1 (ds @ [c]) = Inr (put fs1 (ds @ [c]) (Dir []))" by simp
      from e1 m1 e2 have m: "mkdir fs (ds @ [c]) = (None, put fs1 (ds @ [c]) (Dir []))"
        by (simp add: mkdir_unfold[of fs "ds @ [c]"] parent_def)
      note p = lookup_put_new[OF l1 n1]
      from p(2) have 1: "directory_at (put fs1 (ds @ [c]) (Dir [])) (ds @ [c])"
        by (simp add: directory_at_iff)
      have 2: "grows fs (put fs1 (ds @ [c]) (Dir []))"
        by (rule grows_trans[OF g1 p(1)])
      have 3: "\<forall>x. lookup fs x = None \<longrightarrow> lookup (put fs1 (ds @ [c]) (Dir [])) x \<noteq> None
                 \<longrightarrow> prefix x (ds @ [c])"
      proof (intro allI impI)
        fix x assume a: "lookup fs x = None" and b: "lookup (put fs1 (ds @ [c]) (Dir [])) x \<noteq> None"
        show "prefix x (ds @ [c])"
        proof (cases "lookup fs1 x = None")
          case True
          from p(3)[OF True b] show ?thesis by simp
        next
          case False
          with o1 a have "prefix x ds" by blast
          then show ?thesis by (auto simp: prefix_def)
        qed
      qed
      from m 1 2 3 \<open>\<not> directory_at fs (ds @ [c])\<close> show ?thesis by auto
    qed
  qed
qed

lemma os_write_canonical:
  assumes "''..'' \<notin> set (ds @ [c])" and "lookup fs ds = Some (Dir es)"
    and "missing_or_file fs (ds @ [c])"
  shows "os_write fs (ds @ [c]) data = Inr (put fs (ds @ [c]) (File data))"
proof -
  from assms have "walk fs [] ds = Inr ds"
    using walk_canonical[of ds fs "[]"] by simp
  with assms show ?thesis
    by (auto simp: os_write_def lookup_snoc missing_or_file_iff split: option.splits)
qed

lemma write_canonical:
  assumes dd: "''..'' \<notin> set full" and ne: "full \<noteq> []"
    and way: "\<forall>x. prefix x (butlast full) \<longrightarrow> missing_or_dir fs x"
    and tgt: "missing_or_file fs full"
  shows "\<exists>fs1. mkdir fs (parent full) = (None, fs1) \<and> grows fs fs1
           \<and> directory_at fs1 (butlast full)
           \<and> os_write fs1 full data = Inr (put fs1 full (File data))
           \<and> (directory_at fs (butlast full) \<longrightarrow> fs1 = fs)"
proof -
  from ne obtain ds c where full: "full = ds @ [c]"
    by (cases full rule: rev_cases) auto
  from dd full have ddd: "''..'' \<notin> set ds" by simp
  from way full have way': "\<forall>x. prefix x ds \<longrightarrow> missing_or_dir fs x" by simp
  from mkdir_canonical[OF ddd way'] obtain fs1
    where m: "mkdir fs ds = (None, fs1)" and d1: "directory_at fs1 ds" and g: "grows fs fs1"
      and o: "\<forall>x. lookup fs x = None \<longrightarrow> lookup fs1 x \<noteq> None \<longrightarrow> prefix x ds"
      and i: "directory_at fs ds \<longrightarrow> fs1 = fs"
    by blast
  from d1 obtain es where l1: "lookup fs1 ds = Some (Dir es)"
    by (auto simp: directory_at_iff)
  have t1: "missing_or_file fs1 (ds @ [c])"
  proof (cases "lookup fs (ds @ [c])")
    case None
    have "lookup fs1 (ds @ [c]) = None"
    proof (rule ccontr)
      assume "lookup fs1 (ds @ [c]) \<noteq> None"
      with o None have "prefix (ds @ [c]) ds" by blast
      then show False by (auto simp: prefix_def)
    qed
    then show ?thesis by (simp add: missing_or_file_iff)
  next
    case (Some n)
    with tgt full obtain f where "lookup fs (ds @ [c]) = Some (File f)"
      by (auto simp: missing_or_file_iff)
    from growsD(3)[OF g this] show ?thesis by (simp add: missing_or_file_iff)
  qed
  from os_write_canonical[OF dd[unfolded full] l1 t1]
  have "os_write fs1 (ds @ [c]) data = Inr (put fs1 (ds @ [c]) (File data))" .
  with m d1 g i full show ?thesis by (simp add: parent_def)
qed

lemma joinrealpath_canonical_result:
  "clean ps \<Longrightarrow> ''..'' \<notin> set ps \<Longrightarrow> joinrealpath fs cur ps = Inr q \<Longrightarrow> q = cur @ ps"
proof (induction ps arbitrary: cur)
  case Nil
  then show ?case by simp
next
  case (Cons c ps)
  from Cons.prems have "joinrealpath fs (cur @ [c]) ps = Inr q"
    by (auto simp: joinrealpath_step simp del: joinrealpath.simps(2) split: if_splits)
  with Cons.IH[of "cur @ [c]"] Cons.prems show ?case by simp
qed

lemma list_all_prefixes: "list_all P (prefixes xs) \<longleftrightarrow> (\<forall>x. prefix x xs \<longrightarrow> P x)"
  by (auto simp: list_all_iff)

lemma joinrealpath_append:
  "joinrealpath fs cur (xs @ ys) =
     (case joinrealpath fs cur xs of Inl e \<Rightarrow> Inl e | Inr q \<Rightarrow> joinrealpath fs q ys)"
proof (induction xs arbitrary: cur)
  case Nil
  show ?case by simp
next
  case (Cons x xs)
  show ?case
    unfolding append_Cons joinrealpath_step[of fs cur x] using Cons.IH by simp
qed

lemma os_write_Inr:
  assumes "os_write fs p data = Inr fs'"
  shows "p \<noteq> [] \<and> (\<exists>d es. walk fs [] (butlast p) = Inr d \<and> lookup fs d = Some (Dir es)
           \<and> last p \<noteq> ''..'' \<and> missing_or_file fs (d @ [last p])
           \<and> fs' = put fs (d @ [last p]) (File data))"
proof -
  from assms have ne: "p \<noteq> []"
    by (auto simp: os_write_def split: if_splits)
  from assms ne obtain d where w: "walk fs [] (butlast p) = Inr d"
    by (cases "walk fs [] (butlast p)") (auto simp: os_write_def)
  from assms ne w obtain es where l: "lookup fs d = Some (Dir es)"
    by (cases "lookup fs d") (auto simp: os_write_def split: node.splits)
  from assms ne w l have dd: "last p \<noteq> ''..''"
    by (auto simp: os_write_def split: if_splits)
  from assms ne w l dd have "missing_or_file fs (d @ [last p])"
    and "fs' = put fs (d @ [last p]) (File data)"
    by (auto simp: os_write_def lookup_snoc missing_or_file_iff split: option.splits node.splits)
  with ne w l dd show ?thesis by blast
qed

lemma write_normalized:
  assumes wr: "write_file fs p c = Write_Success q n"
    and rs: "resolve fs (CONFIG_BASE @ Path (lstrip p ''/'')) = Inr (CONFIG_BASE @ qs)"
  shows "q = str (Path (lstrip p ''/''))
       \<and> write_file fs (str qs) c = Write_Success (str qs) n
       \<and> lookup (write_file_fs fs p c) (CONFIG_BASE @ qs) = Some (File (Text c))
       \<and> lookup (write_file_fs fs (str qs) c) (CONFIG_BASE @ qs) = Some (File (Text c))"
proof -
  let ?full = "CONFIG_BASE @ Path (lstrip p ''/'')"
  let ?rf = "CONFIG_BASE @ qs"
  from write_success_steps[OF wr] obtain rf0 fs1
    where m: "mkdir fs (parent ?full) = (None, fs1)"
      and ow: "os_write fs1 ?full (Text c) = Inr (write_file_fs fs p c)"
      and q: "q = str (Path (lstrip p ''/''))" and n: "n = length c"
    by blast
  from os_write_Inr[OF ow] obtain d es
    where w: "walk fs1 [] (butlast ?full) = Inr d" and l1: "lookup fs1 d = Some (Dir es)"
      and ld: "last ?full \<noteq> ''..''" and t1: "missing_or_file fs1 (d @ [last ?full])"
      and fs2: "write_file_fs fs p c = put fs1 (d @ [last ?full]) (File (Text c))"
    by blast
  have ne: "?full \<noteq> []" by (simp add: CONFIG_BASE_def)
  have cl: "clean ?full" by (simp add: clean_Path)
  have sp: "?full = butlast ?full @ [last ?full]" using ne by simp
  from rs have "joinrealpath fs [] (butlast ?full @ [last ?full]) = Inr ?rf"
    unfolding resolve_def using sp by simp
  then obtain q1 where j1: "joinrealpath fs [] (butlast ?full) = Inr q1"
    and j2: "joinrealpath fs q1 [last ?full] = Inr ?rf"
    unfolding joinrealpath_append
    by (cases "joinrealpath fs [] (butlast ?full)") auto
  from walk_resolve[OF w clean_butlast[OF cl] j1] have q1: "q1 = d" .
  from cl ne have cll: "clean [last ?full]"
    by (metis clean_simps(3) sp)
  from joinrealpath_canonical_result[OF cll _ j2] ld q1
  have rf: "?rf = d @ [last ?full]" by simp
  note pr = joinrealpath_props[OF rs[unfolded resolve_def]]
  from pr cl have crf: "clean ?rf" and dd: "''..'' \<notin> set ?rf" and nf: "nul_free ?rf"
    by simp_all
  from crf have cq: "clean qs" by simp
  have bl: "butlast ?rf = d" unfolding rf by simp
  from mkdir_grows[OF m] have g: "grows fs fs1" .
  have way: "\<forall>x. prefix x (butlast ?rf) \<longrightarrow> missing_or_dir fs x"
  proof (intro allI impI)
    fix x assume "prefix x (butlast ?rf)"
    with bl have "prefix x d" by simp
    from lookup_prefix_Dir[OF l1 this] obtain e1 where e1: "lookup fs1 x = Some (Dir e1)" by blast
    show "missing_or_dir fs x"
    proof (cases "lookup fs x")
      case None
      then show ?thesis by (simp add: missing_or_dir_iff)
    next
      case (Some nd)
      with growsD(3,4)[OF g, of x] e1 show ?thesis
        by (cases nd) (auto simp: missing_or_dir_iff)
    qed
  qed
  have tgt: "missing_or_file fs ?rf"
  proof (cases "lookup fs ?rf")
    case None
    then show ?thesis by (simp add: missing_or_file_iff)
  next
    case (Some nd)
    with growsD(2,4)[OF g, of ?rf] t1[folded rf] show ?thesis
      by (cases nd) (auto simp: missing_or_file_iff)
  qed
  have ner: "?rf \<noteq> []" by (simp add: CONFIG_BASE_def)
  from write_canonical[OF dd ner way tgt, of "Text c"] obtain fs1'
    where m': "mkdir fs (parent ?rf) = (None, fs1')"
      and d1': "directory_at fs1' (butlast ?rf)"
      and ow': "os_write fs1' ?rf (Text c) = Inr (put fs1' ?rf (File (Text c)))"
    by blast
  have full': "CONFIG_BASE @ Path (lstrip (str qs) ''/'') = ?rf"
    by (simp add: Path_str[OF cq])
  have rs': "resolve fs ?rf = Inr ?rf"
    unfolding resolve_def using joinrealpath_canonical[of ?rf "[]" fs] crf dd nf by simp
  from rs' m' ow' have run: "write_file_run fs (str qs) c
      = (Write_Success (str qs) (length c), put fs1' ?rf (File (Text c)))"
    unfolding write_file_run_eq full' Path_str[OF cq]
    by (simp add: write_text_def startswith_below_config)
  from d1' obtain es' where l1': "lookup fs1' (butlast ?rf) = Some (Dir es')"
    by (auto simp: directory_at_iff)
  from lookup_put_same[OF l1', of "last ?rf" "File (Text c)"] ner
  have 4: "lookup (put fs1' ?rf (File (Text c))) ?rf = Some (File (Text c))" by simp
  from lookup_put_same[OF l1, of "last ?full" "File (Text c)"]
  have 3: "lookup (write_file_fs fs p c) ?rf = Some (File (Text c))"
    unfolding fs2 rf by simp
  from run q n 3 4 show ?thesis
    by (simp add: write_file_def write_file_fs_def)
qed

subsection \<open>Creating directories along a path with traversal segments\<close>

lemma normpath_append: "normpath cur (xs @ ys) = normpath (normpath cur xs) ys"
  by (induction xs arbitrary: cur) simp_all

lemma normpath_snoc:
  "normpath cur (xs @ [c]) =
     (if c = ''..'' then butlast (normpath cur xs) else normpath cur xs @ [c])"
  by (simp add: normpath_append)

lemma normpath_canonical: "''..'' \<notin> set ps \<Longrightarrow> normpath cur ps = cur @ ps"
  by (induction ps arbitrary: cur) auto

lemma walk_normpath: "walk fs cur ps = Inr q \<Longrightarrow> q = normpath cur ps"
proof (induction ps arbitrary: cur)
  case Nil
  then show ?case by simp
next
  case (Cons c cs)
  from Cons.prems have "walk fs (if c = ''..'' then butlast cur else cur @ [c]) cs = Inr q"
    by (auto simp: walk_step simp del: walk.simps(2) split: option.splits node.splits if_splits)
  from Cons.IH[OF this] show ?case by simp
qed

lemma joinrealpath_normpath:
  "clean ps \<Longrightarrow> joinrealpath fs cur ps = Inr q \<Longrightarrow> q = normpath cur ps"
proof (induction ps arbitrary: cur)
  case Nil
  then show ?case by simp
next
  case (Cons c cs)
  from Cons.prems have "joinrealpath fs (if c = ''..'' then butlast cur else cur @ [c]) cs = Inr q"
    by (auto simp: joinrealpath_step simp del: joinrealpath.simps(2) split: if_splits)
  from Cons.IH[OF _ this] Cons.prems(1) show ?case by simp
qed

lemma walk_errors: "walk fs cur ps = Inl e \<Longrightarrow> e = ENOENT \<or> e = ENOTDIR"
proof (induction ps arbitrary: cur)
  case Nil
  then show ?case by simp
next
  case (Cons c cs)
  show ?case
  proof (cases "walk fs (if c = ''..'' then butlast cur else cur @ [c]) cs = Inl e")
    case True
    then show ?thesis by (rule Cons.IH)
  next
    case False
    with Cons.prems show ?thesis
      by (auto simp: walk_step simp del: walk.simps(2) split: option.splits node.splits if_splits)
  qed
qed

lemma walk_exists:
  "lookup fs cur \<noteq> None \<Longrightarrow> walk fs cur ps = Inr q \<Longrightarrow> lookup fs q \<noteq> None"
proof (induction ps arbitrary: cur)
  case Nil
  then show ?case by simp
next
  case (Cons c cs)
  from Cons.prems(2) obtain es where d: "lookup fs cur = Some (Dir es)"
    by (auto simp: walk_step simp del: walk.simps(2) split: option.splits node.splits)
  show ?case
  proof (cases "c = ''..''")
    case True
    with Cons.prems(2) d have w: "walk fs (butlast cur) cs = Inr q"
      by (simp add: walk_step del: walk.simps(2))
    from lookup_prefix_Dir[OF d, of "butlast cur"] have "lookup fs (butlast cur) \<noteq> None"
      by (auto simp: prefixeq_butlast)
    from Cons.IH[OF this w] show ?thesis .
  next
    case False
    with Cons.prems(2) d have ne: "lookup fs (cur @ [c]) \<noteq> None"
      and w: "walk fs (cur @ [c]) cs = Inr q"
      by (auto simp: walk_step simp del: walk.simps(2) split: if_splits)
    from Cons.IH[OF ne w] show ?thesis .
  qed
qed

lemma walk_ENOTDIR:
  "walk fs cur ps = Inl ENOTDIR \<Longrightarrow> \<exists>x. prefix x ps \<and> \<not> missing_or_dir fs (normpath cur x)"
proof (induction ps arbitrary: cur)
  case Nil
  then show ?case by simp
next
  case (Cons c cs)
  show ?case
  proof (cases "missing_or_dir fs cur")
    case False
    then have "prefix [] (c # cs) \<and> \<not> missing_or_dir fs (normpath cur [])" by simp
    then show ?thesis by blast
  next
    case True
    with Cons.prems
    have "walk fs (if c = ''..'' then butlast cur else cur @ [c]) cs = Inl ENOTDIR"
      by (auto simp: walk_step missing_or_dir_iff simp del: walk.simps(2)
          split: option.splits node.splits if_splits)
    from Cons.IH[OF this] obtain x where "prefix x cs"
      and "\<not> missing_or_dir fs (normpath (if c = ''..'' then butlast cur else cur @ [c]) x)"
      by blast
    then have "prefix (c # x) (c # cs) \<and> \<not> missing_or_dir fs (normpath cur (c # x))"
      by simp
    then show ?thesis by blast
  qed
qed

lemma normpath_visited:
  "prefix y (normpath [] ds) \<Longrightarrow> \<exists>x. prefix x ds \<and> normpath [] x = y"
proof (induction ds arbitrary: y rule: rev_induct)
  case Nil
  then show ?case by simp
next
  case (snoc c ds)
  show ?case
  proof (cases "y = normpath [] (ds @ [c])")
    case True
    then show ?thesis by blast
  next
    case False
    with snoc.prems have "prefix y (normpath [] ds)"
      by (auto simp: normpath_snoc split: if_splits
          dest: prefix_order.trans[OF _ prefixeq_butlast])
    from snoc.IH[OF this] obtain x where "prefix x ds" "normpath [] x = y" by blast
    then have "prefix x (ds @ [c]) \<and> normpath [] x = y" by simp
    then show ?thesis by blast
  qed
qed

lemma os_mkdir_parent:
  assumes "walk fs [] ds = Inr d" and "lookup fs d = Some (Dir es)"
  shows "os_mkdir fs (ds @ [c]) =
           (if c = ''..'' then Inl EEXIST
            else case lookup fs (d @ [c]) of
                   None \<Rightarrow> Inr (put fs (d @ [c]) (Dir []))
                 | Some n \<Rightarrow> Inl EEXIST)"
  using assms by (auto simp: os_mkdir_def lookup_snoc split: option.splits)

lemma os_mkdir_fail: "walk fs [] ds = Inl e \<Longrightarrow> os_mkdir fs (ds @ [c]) = Inl e"
  by (simp add: os_mkdir_def)

lemma walk_last:
  assumes "walk fs [] ds = Inr d" and "lookup fs d = Some (Dir es)"
  shows "walk fs [] (ds @ [c]) =
           (if c = ''..'' then Inr (butlast d)
            else if lookup fs (d @ [c]) = None then Inl ENOENT
            else Inr (d @ [c]))"
  using assms by (simp add: walk_append walk_step del: walk.simps(2))

lemma is_dir_walk: "walk fs [] p = Inr q \<Longrightarrow> is_dir fs p \<longleftrightarrow> directory_at fs q"
  by (auto simp: is_dir_def os_stat_def directory_at_def split: option.splits node.splits)

lemma directory_at_butlast: "directory_at fs d \<Longrightarrow> directory_at fs (butlast d)"
  unfolding directory_at_iff
  by (auto dest: lookup_prefix_Dir[where x = "butlast d"] simp: prefixeq_butlast)

lemma grows_directory_at: "grows fs fs' \<Longrightarrow> directory_at fs x \<Longrightarrow> directory_at fs' x"
  unfolding directory_at_iff by (auto dest: growsD(2))

lemma grows_missing_or_dir: "grows fs fs' \<Longrightarrow> missing_or_dir fs x \<Longrightarrow> missing_or_dir fs' x"
  unfolding missing_or_dir_iff by (auto dest: growsD(1,2))

lemma mkdir_general:
  assumes "\<forall>x. prefix x ps \<longrightarrow> missing_or_dir fs (normpath [] x)"
  shows "\<exists>fs1. mkdir fs ps = (None, fs1)
           \<and> walk fs1 [] ps = Inr (normpath [] ps)
           \<and> directory_at fs1 (normpath [] ps)
           \<and> grows fs fs1
           \<and> (\<forall>y. lookup fs y = None \<longrightarrow> lookup fs1 y \<noteq> None
                 \<longrightarrow> (\<exists>x. prefix x ps \<and> y = normpath [] x))
           \<and> ((\<forall>x. prefix x ps \<longrightarrow> directory_at fs (normpath [] x)) \<longrightarrow> fs1 = fs)"
  using assms
proof (induction ps rule: rev_induct)
  case Nil
  then have r: "missing_or_dir fs []" by simp
  then have "directory_at fs []"
    by (simp add: missing_or_dir_iff directory_at_iff)
  with mkdir_root[OF r] show ?case by (auto simp: grows_refl)
next
  case (snoc c ds)
  let ?d = "normpath [] ds"
  let ?t = "normpath [] (ds @ [c])"
  from snoc.prems have pre: "\<forall>x. prefix x ds \<longrightarrow> missing_or_dir fs (normpath [] x)"
    and mt: "missing_or_dir fs ?t" and md: "missing_or_dir fs ?d"
    by (auto simp: prefix_def)
  have t: "?t = (if c = ''..'' then butlast ?d else ?d @ [c])"
    by (rule normpath_snoc)
  \<comment> \<open>what \<open>os.mkdir\<close> of the last component does in a file system where the parent is there\<close>
  have last_step: "\<exists>fs2. (case os_mkdir fs' (ds @ [c]) of
                            Inr f \<Rightarrow> (None, f)
                          | Inl e \<Rightarrow> if e = ENOENT then (Some (OSError ENOENT (str_abs (ds @ [c]))), fs')
                                    else if is_dir fs' (ds @ [c]) then (None, fs')
                                    else (Some (OSError e (str_abs (ds @ [c]))), fs')) = (None, fs2)
              \<and> os_mkdir fs' (ds @ [c]) \<noteq> Inl ENOENT
              \<and> walk fs2 [] (ds @ [c]) = Inr ?t \<and> directory_at fs2 ?t \<and> grows fs' fs2
              \<and> (\<forall>y. lookup fs' y = None \<longrightarrow> lookup fs2 y \<noteq> None \<longrightarrow> y = ?t)
              \<and> (directory_at fs' ?t \<longrightarrow> fs2 = fs')"
    if w: "walk fs' [] ds = Inr ?d" and dd: "directory_at fs' ?d" and mt': "missing_or_dir fs' ?t"
    for fs'
  proof -
    from dd obtain es where l: "lookup fs' ?d = Some (Dir es)"
      by (auto simp: directory_at_iff)
    note om = os_mkdir_parent[OF w l, of c]
    note wl = walk_last[OF w l, of c]
    show ?thesis
    proof (cases "c = ''..''")
      case True
      with t have tt: "?t = butlast ?d" by simp
      from True om have e: "os_mkdir fs' (ds @ [c]) = Inl EEXIST" by simp
      from True wl have "walk fs' [] (ds @ [c]) = Inr (butlast ?d)" by simp
      then have w2: "walk fs' [] (ds @ [c]) = Inr ?t" unfolding tt by assumption
      from directory_at_butlast[OF dd] have d2: "directory_at fs' ?t" unfolding tt by assumption
      with is_dir_walk[OF w2] have "is_dir fs' (ds @ [c])" by simp
      with e w2 d2 show ?thesis by (auto simp: grows_refl)
    next
      case False
      with t have tt: "?t = ?d @ [c]" by simp
      show ?thesis
      proof (cases "lookup fs' (?d @ [c])")
        case None
        let ?fs2 = "put fs' (?d @ [c]) (Dir [])"
        from None False om have e: "os_mkdir fs' (ds @ [c]) = Inr ?fs2" by simp
        note p = lookup_put_new[OF l None]
        from walk_mono[OF grows_extends[OF p(1)] w] have w': "walk ?fs2 [] ds = Inr ?d" .
        from growsD(2)[OF p(1) l] obtain es' where l': "lookup ?fs2 ?d = Some (Dir es')" by blast
        from walk_last[OF w' l', of c] False p(2)
        have "walk ?fs2 [] (ds @ [c]) = Inr (?d @ [c])" by simp
        then have w2: "walk ?fs2 [] (ds @ [c]) = Inr ?t" unfolding tt by assumption
        from p(2) have "directory_at ?fs2 (?d @ [c])" by (simp add: directory_at_iff)
        then have d2: "directory_at ?fs2 ?t" unfolding tt by assumption
        from None have "\<not> directory_at fs' (?d @ [c])" by (simp add: directory_at_iff)
        then have nt: "\<not> directory_at fs' ?t" unfolding tt by assumption
        have o3: "\<forall>y. lookup fs' y = None \<longrightarrow> lookup ?fs2 y \<noteq> None \<longrightarrow> y = ?t"
          unfolding tt using p(3) by blast
        from e w2 d2 p(1) o3 nt show ?thesis by auto
      next
        case (Some n)
        from mt' have "missing_or_dir fs' (?d @ [c])" unfolding tt by assumption
        with Some obtain e0 where "lookup fs' (?d @ [c]) = Some (Dir e0)"
          by (auto simp: missing_or_dir_iff)
        then have "directory_at fs' (?d @ [c])" by (simp add: directory_at_iff)
        then have d2: "directory_at fs' ?t" unfolding tt by assumption
        from Some False om have e: "os_mkdir fs' (ds @ [c]) = Inl EEXIST" by simp
        from Some False wl have "walk fs' [] (ds @ [c]) = Inr (?d @ [c])" by simp
        then have w2: "walk fs' [] (ds @ [c]) = Inr ?t" unfolding tt by assumption
        with is_dir_walk[OF w2] d2 have "is_dir fs' (ds @ [c])" by simp
        with e w2 d2 show ?thesis by (auto simp: grows_refl)
      qed
    qed
  qed
  show ?case
  proof (cases "walk fs [] ds")
    case (Inr d0)
    from walk_normpath[OF Inr] have w: "walk fs [] ds = Inr ?d" using Inr by simp
    from walk_exists[OF _ w] md have dd: "directory_at fs ?d"
      by (auto simp: missing_or_dir_iff directory_at_iff)
    from last_step[OF w dd mt] obtain fs2
      where st: "(case os_mkdir fs (ds @ [c]) of
                            Inr f \<Rightarrow> (None, f)
                          | Inl e \<Rightarrow> if e = ENOENT then (Some (OSError ENOENT (str_abs (ds @ [c]))), fs)
                                    else if is_dir fs (ds @ [c]) then (None, fs)
                                    else (Some (OSError e (str_abs (ds @ [c]))), fs)) = (None, fs2)"
        and ne: "os_mkdir fs (ds @ [c]) \<noteq> Inl ENOENT"
        and w2: "walk fs2 [] (ds @ [c]) = Inr ?t" and d2: "directory_at fs2 ?t"
        and g: "grows fs fs2"
        and o: "\<forall>y. lookup fs y = None \<longrightarrow> lookup fs2 y \<noteq> None \<longrightarrow> y = ?t"
        and i: "directory_at fs ?t \<longrightarrow> fs2 = fs"
      by blast
    from st ne have m: "mkdir fs (ds @ [c]) = (None, fs2)"
      by (subst mkdir_unfold) (auto split: sum.splits if_splits)
    have o': "\<forall>y. lookup fs y = None \<longrightarrow> lookup fs2 y \<noteq> None
                 \<longrightarrow> (\<exists>x. prefix x (ds @ [c]) \<and> y = normpath [] x)"
      using o by blast
    have i': "(\<forall>x. prefix x (ds @ [c]) \<longrightarrow> directory_at fs (normpath [] x)) \<longrightarrow> fs2 = fs"
      using i by blast
    from m w2 d2 g o' i' show ?thesis by blast
  next
    case (Inl e)
    have "e = ENOENT"
    proof (rule ccontr)
      assume "e \<noteq> ENOENT"
      with walk_errors[OF Inl] Inl have "walk fs [] ds = Inl ENOTDIR" by simp
      from walk_ENOTDIR[OF this] pre show False by blast
    qed
    with os_mkdir_fail[OF Inl, of c] have e1: "os_mkdir fs (ds @ [c]) = Inl ENOENT" by simp
    from snoc.IH[OF pre] obtain fs1
      where m1: "mkdir fs ds = (None, fs1)" and w1: "walk fs1 [] ds = Inr ?d"
        and d1: "directory_at fs1 ?d" and g1: "grows fs fs1"
        and o1: "\<forall>y. lookup fs y = None \<longrightarrow> lookup fs1 y \<noteq> None
                   \<longrightarrow> (\<exists>x. prefix x ds \<and> y = normpath [] x)"
        and i1: "(\<forall>x. prefix x ds \<longrightarrow> directory_at fs (normpath [] x)) \<longrightarrow> fs1 = fs"
      by blast
    from last_step[OF w1 d1 grows_missing_or_dir[OF g1 mt]] obtain fs2
      where st: "(case os_mkdir fs1 (ds @ [c]) of
                            Inr f \<Rightarrow> (None, f)
                          | Inl e \<Rightarrow> if e = ENOENT then (Some (OSError ENOENT (str_abs (ds @ [c]))), fs1)
                                    else if is_dir fs1 (ds @ [c]) then (None, fs1)
                                    else (Some (OSError e (str_abs (ds @ [c]))), fs1)) = (None, fs2)"
        and w2: "walk fs2 [] (ds @ [c]) = Inr ?t" and d2: "directory_at fs2 ?t"
        and g2: "grows fs1 fs2"
        and o2: "\<forall>y. lookup fs1 y = None \<longrightarrow> lookup fs2 y \<noteq> None \<longrightarrow> y = ?t"
        and i2: "directory_at fs1 ?t \<longrightarrow> fs2 = fs1"
      by blast
    from e1 m1 st have m: "mkdir fs (ds @ [c]) = (None, fs2)"
      by (subst mkdir_unfold) (simp add: parent_def)
    have g: "grows fs fs2" by (rule grows_trans[OF g1 g2])
    have o: "\<forall>y. lookup fs y = None \<longrightarrow> lookup fs2 y \<noteq> None
                 \<longrightarrow> (\<exists>x. prefix x (ds @ [c]) \<and> y = normpath [] x)"
    proof (intro allI impI)
      fix y assume a: "lookup fs y = None" and b: "lookup fs2 y \<noteq> None"
      show "\<exists>x. prefix x (ds @ [c]) \<and> y = normpath [] x"
      proof (cases "lookup fs1 y = None")
        case True
        with o2 b have "y = ?t" by blast
        then show ?thesis by blast
      next
        case False
        with o1 a obtain x where "prefix x ds" "y = normpath [] x" by blast
        then have "prefix x (ds @ [c]) \<and> y = normpath [] x" by simp
        then show ?thesis by blast
      qed
    qed
    have i: "(\<forall>x. prefix x (ds @ [c]) \<longrightarrow> directory_at fs (normpath [] x)) \<longrightarrow> fs2 = fs"
    proof
      assume a: "\<forall>x. prefix x (ds @ [c]) \<longrightarrow> directory_at fs (normpath [] x)"
      then have "\<forall>x. prefix x ds \<longrightarrow> directory_at fs (normpath [] x)" by simp
      with i1 have f1: "fs1 = fs" by simp
      from a have "directory_at fs ?t" by blast
      with i2 f1 show "fs2 = fs" by simp
    qed
    from m w2 d2 g o i show ?thesis by blast
  qed
qed

lemma os_write_parent:
  assumes "walk fs [] ds = Inr d" and "lookup fs d = Some (Dir es)" and "c \<noteq> ''..''"
    and "missing_or_file fs (d @ [c])"
  shows "os_write fs (ds @ [c]) data = Inr (put fs (d @ [c]) (File data))"
  using assms
  by (auto simp: os_write_def lookup_snoc missing_or_file_iff split: option.splits)

lemma walk_prefix:
  assumes "walk fs [] ps = Inr q" and "prefix x ps"
  shows "walk fs [] x = Inr (normpath [] x)" and "lookup fs (normpath [] x) \<noteq> None"
proof -
  from assms(2) obtain y where ps: "ps = x @ y" by (auto simp: prefix_def)
  from assms(1) obtain q' where w: "walk fs [] x = Inr q'"
    unfolding ps walk_append by (cases "walk fs [] x") auto
  from walk_normpath[OF w] w show w': "walk fs [] x = Inr (normpath [] x)" by simp
  from walk_exists[OF _ w'] show "lookup fs (normpath [] x) \<noteq> None" by simp
qed

lemma write_general:
  assumes ne: "full \<noteq> []"
    and way: "\<forall>x. prefix x (butlast full) \<longrightarrow> missing_or_dir fs (normpath [] x)"
    and tgt: "missing_or_file fs (normpath [] full)"
    and new: "\<forall>x. prefix x (butlast full) \<longrightarrow> normpath [] x \<noteq> normpath [] full"
  shows "\<exists>fs1. mkdir fs (parent full) = (None, fs1) \<and> grows fs fs1
           \<and> (\<forall>x. prefix x (butlast full) \<longrightarrow> directory_at fs1 (normpath [] x) \<and> is_dir fs1 x)
           \<and> directory_at fs1 (butlast (normpath [] full))
           \<and> os_write fs1 full data = Inr (put fs1 (normpath [] full) (File data))
           \<and> ((\<forall>x. prefix x (butlast full) \<longrightarrow> directory_at fs (normpath [] x)) \<longrightarrow> fs1 = fs)"
proof -
  from ne obtain ds c where full: "full = ds @ [c]"
    by (cases full rule: rev_cases) auto
  let ?d = "normpath [] ds"
  from way full have way': "\<forall>x. prefix x ds \<longrightarrow> missing_or_dir fs (normpath [] x)" by simp
  from mkdir_general[OF way'] obtain fs1
    where m: "mkdir fs ds = (None, fs1)" and w1: "walk fs1 [] ds = Inr ?d"
      and d1: "directory_at fs1 ?d" and g: "grows fs fs1"
      and o: "\<forall>y. lookup fs y = None \<longrightarrow> lookup fs1 y \<noteq> None
                \<longrightarrow> (\<exists>x. prefix x ds \<and> y = normpath [] x)"
      and i: "(\<forall>x. prefix x ds \<longrightarrow> directory_at fs (normpath [] x)) \<longrightarrow> fs1 = fs"
    by blast
  have c: "c \<noteq> ''..''"
  proof
    assume "c = ''..''"
    then have t: "normpath [] full = butlast ?d" by (simp add: full normpath_snoc)
    have "prefix (butlast ?d) ?d" by (rule prefixeq_butlast)
    from normpath_visited[OF this] obtain x where x: "prefix x ds" "normpath [] x = butlast ?d"
      by blast
    from new x(1) full have "normpath [] x \<noteq> normpath [] full" by simp
    with x(2) t show False by simp
  qed
  then have t: "normpath [] full = ?d @ [c]" by (simp add: full normpath_snoc)
  have dirs: "directory_at fs1 (normpath [] x) \<and> is_dir fs1 x" if x: "prefix x ds" for x
  proof -
    note wp = walk_prefix[OF w1 x]
    from way' x have "missing_or_dir fs (normpath [] x)" by blast
    from grows_missing_or_dir[OF g this] wp(2) have "directory_at fs1 (normpath [] x)"
      by (auto simp: missing_or_dir_iff directory_at_iff)
    with is_dir_walk[OF wp(1)] show ?thesis by simp
  qed
  have t1: "missing_or_file fs1 (?d @ [c])"
  proof (cases "lookup fs (?d @ [c])")
    case None
    have "lookup fs1 (?d @ [c]) = None"
    proof (rule ccontr)
      assume "lookup fs1 (?d @ [c]) \<noteq> None"
      with o None obtain x where x: "prefix x ds" "?d @ [c] = normpath [] x" by blast
      from new x(1) full have "normpath [] x \<noteq> normpath [] full" by simp
      with x(2) t show False by simp
    qed
    then show ?thesis by (simp add: missing_or_file_iff)
  next
    case (Some n)
    with tgt t obtain f where "lookup fs (?d @ [c]) = Some (File f)"
      by (auto simp: missing_or_file_iff)
    from growsD(3)[OF g this] show ?thesis by (simp add: missing_or_file_iff)
  qed
  from d1 obtain es where l1: "lookup fs1 ?d = Some (Dir es)"
    by (auto simp: directory_at_iff)
  from os_write_parent[OF w1 l1 c t1]
  have ow: "os_write fs1 full data = Inr (put fs1 (normpath [] full) (File data))"
    unfolding full t[unfolded full] .
  from d1 have db: "directory_at fs1 (butlast (normpath [] full))" by (simp add: t)
  from m g dirs db ow i show ?thesis
    unfolding full parent_def by simp
qed

section \<open>The containment check\<close>

text \<open>
  C1. The check compares the two resolved paths as strings. The request
  \<^verbatim>\<open>../config2/secret\<close> resolves to \<^verbatim>\<open>/config2/secret\<close>, outside \<^verbatim>\<open>/config\<close>, and this
  string starts with \<^verbatim>\<open>/config\<close>: the file is read, \<^verbatim>\<open>write_file\<close> creates a file in
  \<^verbatim>\<open>/config2\<close>, and \<^verbatim>\<open>list_directory\<close> lists \<^verbatim>\<open>/config2\<close>. A request that resolves to
  \<^verbatim>\<open>/etc/passwd\<close> is refused.
\<close>

theorem sibling_directory_passes_check:
  "resolve example_fs (CONFIG_BASE @ Path (lstrip ''../config2/secret'' ''/''))
     = Inr [''config2'', ''secret'']
   \<and> read_file example_fs ''../config2/secret''
     = Read_Success ''s3cret'' ''../config2/secret'' 6
   \<and> read_file_io example_fs ''../config2/secret''
     = [ReadText [''config'', ''..'', ''config2'', ''secret'']]
   \<and> write_file example_fs ''../config2/new'' ''x'' = Write_Success ''../config2/new'' 1
   \<and> lookup (write_file_fs example_fs ''../config2/new'' ''x'') [''config2'', ''new'']
     = Some (File (Text ''x''))
   \<and> list_directory example_fs ''../config2''
     = List_Success ''../config2''
         [\<lparr>entry_name = ''secret'', entry_type = ''file'', entry_size = Some 6\<rparr>] 1
   \<and> read_file example_fs ''../etc/passwd'' = Failure access_denied"
  by code_simp

section \<open>Requests with traversal segments that stay inside the root\<close>

text \<open>
  C2, as amended. Let the request \<open>p\<close> resolve to \<^verbatim>\<open>/config\<close> followed by the
  components \<open>qs\<close>, so that \<open>str qs\<close> is the normalized request. When an operation
  succeeds on \<open>p\<close> it succeeds on \<open>str qs\<close> with the same content and size, the same
  entries and count, the same written size, and both writes leave the content at the
  resolved path. The reported path is not the same: it is the cleaned request, which
  keeps its \<^verbatim>\<open>..\<close> segments, for \<open>p\<close> and the normalized path for \<open>str qs\<close>.
\<close>

theorem traversal_inside_root:
  assumes rs: "resolve fs (CONFIG_BASE @ Path (lstrip p ''/'')) = Inr (CONFIG_BASE @ qs)"
  shows "(read_file fs p = Read_Success c q n \<longrightarrow>
            q = str (Path (lstrip p ''/''))
            \<and> read_file fs (str qs) = Read_Success c (str qs) n)
       \<and> (list_directory fs p = List_Success q' es n' \<longrightarrow>
            q' = (if Path (lstrip p ''/'') = [] then [] else str (Path (lstrip p ''/'')))
            \<and> list_directory fs (str qs) = List_Success (if qs = [] then [] else str qs) es n')
       \<and> (write_file fs p d = Write_Success q'' n'' \<longrightarrow>
            q'' = str (Path (lstrip p ''/''))
            \<and> write_file fs (str qs) d = Write_Success (str qs) n''
            \<and> lookup (write_file_fs fs p d) (CONFIG_BASE @ qs) = Some (File (Text d))
            \<and> lookup (write_file_fs fs (str qs) d) (CONFIG_BASE @ qs) = Some (File (Text d)))"
  using read_normalized[OF _ rs] list_normalized[OF _ rs] write_normalized[OF _ rs]
  by blast

theorem traversal_inside_root_witness:
  "resolve example_fs (CONFIG_BASE @ Path (lstrip ''a/../b'' ''/'')) = Inr (CONFIG_BASE @ [''b''])
   \<and> read_file example_fs ''a/../b'' = Read_Success ''hello'' ''a/../b'' 5
   \<and> read_file example_fs ''b'' = Read_Success ''hello'' ''b'' 5
   \<and> resolve example_fs (CONFIG_BASE @ Path (lstrip ''a/..'' ''/'')) = Inr (CONFIG_BASE @ [])
   \<and> list_directory example_fs ''a/..'' = List_Success ''a/..'' example_entries 4
   \<and> list_directory example_fs ''.'' = List_Success [] example_entries 4
   \<and> write_file example_fs ''a/../t'' ''x'' = Write_Success ''a/../t'' 1
   \<and> write_file example_fs ''t'' ''x'' = Write_Success ''t'' 1"
proof -
  have r1: "resolve example_fs (CONFIG_BASE @ Path (lstrip ''a/../b'' ''/'')) = Inr (CONFIG_BASE @ [''b''])"
    and rd: "read_file example_fs ''a/../b'' = Read_Success ''hello'' ''a/../b'' 5"
    and r2: "resolve example_fs (CONFIG_BASE @ Path (lstrip ''a/..'' ''/'')) = Inr (CONFIG_BASE @ [])"
    and ls: "list_directory example_fs ''a/..'' = List_Success ''a/..'' example_entries 4"
    and r3: "resolve example_fs (CONFIG_BASE @ Path (lstrip ''a/../t'' ''/'')) = Inr (CONFIG_BASE @ [''t''])"
    and wr: "write_file example_fs ''a/../t'' ''x'' = Write_Success ''a/../t'' 1"
    and s: "str [''b''] = ''b''" "str [] = ''.''" "str [''t''] = ''t''"
    by code_simp+
  from traversal_inside_root [OF r1, of "''hello''" "''a/../b''" 5] rd
  have 1: "read_file example_fs ''b'' = Read_Success ''hello'' ''b'' 5"
    unfolding s by simp
  from traversal_inside_root [OF r2, where q' = "''a/..''" and es = example_entries and n' = 4] ls
  have 2: "list_directory example_fs ''.'' = List_Success [] example_entries 4"
    unfolding s by simp
  from traversal_inside_root [OF r3, where d = "''x''" and q'' = "''a/../t''" and n'' = 1] wr
  have 3: "write_file example_fs ''t'' ''x'' = Write_Success ''t'' 1"
    unfolding s by simp
  from r1 rd 1 r2 ls 2 wr 3 show ?thesis by simp
qed


text \<open>
  C2 as stated fails. \<^verbatim>\<open>a/../b\<close> and \<^verbatim>\<open>b\<close> name the same file, and the two results
  differ in the reported path. And \<^verbatim>\<open>x/../b\<close>, with no directory \<^verbatim>\<open>x\<close>, resolves to
  \<^verbatim>\<open>/config/b\<close> as well, but the kernel cannot walk through \<^verbatim>\<open>x\<close>: the file is
  reported as not found.
\<close>

theorem traversal_changes_the_result:
  "resolve example_fs (CONFIG_BASE @ Path (lstrip ''a/../b'' ''/'')) = Inr [''config'', ''b'']
   \<and> read_file example_fs ''a/../b'' = Read_Success ''hello'' ''a/../b'' 5
   \<and> read_file example_fs ''b'' = Read_Success ''hello'' ''b'' 5
   \<and> read_file example_fs ''a/../b'' \<noteq> read_file example_fs ''b''
   \<and> resolve example_fs (CONFIG_BASE @ Path (lstrip ''x/../b'' ''/'')) = Inr [''config'', ''b'']
   \<and> read_file example_fs ''x/../b'' = Failure ''File not found: x/../b''"
  by code_simp

section \<open>Writing and reading back\<close>

text \<open>
  C3, as amended. After a successful \<^verbatim>\<open>write_file(p, c)\<close> the call \<^verbatim>\<open>read_file(p)\<close>
  succeeds with the same path and returns \<open>c\<close> after the translation of universal
  newlines, with the length of the translated text as its size; the write reports the
  length of \<open>c\<close>. When \<open>c\<close> has no carriage return the content read is \<open>c\<close> itself and
  the two sizes agree.
\<close>

theorem write_then_read:
  assumes "write_file fs p c = Write_Success q n"
  shows "n = length c
       \<and> read_file (write_file_fs fs p c) p
           = Read_Success (universal_newlines c) q (length (universal_newlines c))
       \<and> (CHR 0x0D \<notin> set c \<longrightarrow> read_file (write_file_fs fs p c) p = Read_Success c q n)"
proof -
  let ?full = "CONFIG_BASE @ Path (lstrip p ''/'')"
  let ?fs2 = "write_file_fs fs p c"
  from write_success_steps[OF assms] obtain rf fs1
    where rs: "resolve fs ?full = Inr rf"
      and sw: "startswith (str_abs rf) (str_abs CONFIG_BASE)"
      and ow: "os_write fs1 ?full (Text c) = Inr ?fs2"
      and q: "q = str (Path (lstrip p ''/''))" and n: "n = length c"
    by blast
  from os_write_stat[OF ow] have st: "os_stat ?fs2 ?full = Inr (File (Text c))" by simp
  from rs have rs2: "resolve ?fs2 ?full = Inr rf"
    by (simp add: resolve_fs_indep[of ?fs2 _ fs])
  have ex: "exists ?fs2 ?full" and f: "is_file ?fs2 ?full"
    and rt: "read_text ?fs2 ?full = Inr (universal_newlines c)"
    using st by (simp_all add: exists_def is_file_def read_text_def)
  have r: "read_file ?fs2 p
             = Read_Success (universal_newlines c) q (length (universal_newlines c))"
    unfolding read_file_def read_file_run_eq
    using rs2 sw ex f rt q by simp
  with n show ?thesis by (simp add: universal_newlines_id)
qed

theorem write_then_read_witness:
  "write_file example_fs ''.storage/test.json'' ''{}'' = Write_Success ''.storage/test.json'' 2
   \<and> CHR 0x0D \<notin> set ''{}''
   \<and> read_file (write_file_fs example_fs ''.storage/test.json'' ''{}'') ''.storage/test.json''
       = Read_Success ''{}'' ''.storage/test.json'' 2"
proof -
  have w: "write_file example_fs ''.storage/test.json'' ''{}''
             = Write_Success ''.storage/test.json'' 2"
    by code_simp
  have c: "CHR 0x0D \<notin> set ''{}''"
    by simp
  from write_then_read [OF w] w c show ?thesis by simp
qed


text \<open>
  C3 as stated fails for a content with a carriage return: \<^verbatim>\<open>a\r\nb\<close> is written with
  size 4 and read back as \<^verbatim>\<open>a\nb\<close> with size 3.
\<close>

theorem carriage_return_is_not_read_back:
  "write_file example_fs ''t.txt'' [CHR ''a'', CHR 0x0D, CHR 0x0A, CHR ''b'']
     = Write_Success ''t.txt'' 4
   \<and> read_file (write_file_fs example_fs ''t.txt'' [CHR ''a'', CHR 0x0D, CHR 0x0A, CHR ''b''])
        ''t.txt''
     = Read_Success [CHR ''a'', CHR 0x0A, CHR ''b''] ''t.txt'' 3"
  by code_simp

section \<open>Exceptions at the boundary of the operations\<close>



section \<open>Leading separators and the empty path\<close>

text \<open>
  C5. \<^verbatim>\<open>lstrip("/")\<close> removes every leading separator, so a request with leading
  separators is the request without them: the same successes, the same file system
  after a write, the same containment verdict (failure messages echo the string as
  passed). \<^verbatim>\<open>/etc/passwd\<close> names \<^verbatim>\<open>/config/etc/passwd\<close> and is never refused by the
  check. The empty path names \<^verbatim>\<open>/config\<close> itself, which resolves like the base, and no
  operation refuses it by the check.
\<close>

theorem leading_separators_are_stripped:
  "lstrip (replicate k (CHR ''/'') @ s) ''/'' = lstrip s ''/''
   \<and> \<not> startswith (lstrip s ''/'') ''/''
   \<and> (read_file fs (replicate k (CHR ''/'') @ s) = Read_Success c q n
        \<longleftrightarrow> read_file fs s = Read_Success c q n)
   \<and> (read_file fs (replicate k (CHR ''/'') @ s) = Failure access_denied
        \<longleftrightarrow> read_file fs s = Failure access_denied)
   \<and> write_file fs (replicate k (CHR ''/'') @ s) d = write_file fs s d
   \<and> write_file_fs fs (replicate k (CHR ''/'') @ s) d = write_file_fs fs s d
   \<and> (list_directory fs (replicate k (CHR ''/'') @ s) = List_Success q es n
        \<longleftrightarrow> list_directory fs s = List_Success q es n)
   \<and> (list_directory fs (replicate k (CHR ''/'') @ s) = Failure access_denied
        \<longleftrightarrow> list_directory fs s = Failure access_denied)
   \<and> CONFIG_BASE @ Path (lstrip ''/etc/passwd'' ''/'') = [''config'', ''etc'', ''passwd'']
   \<and> read_file fs ''/etc/passwd'' \<noteq> Failure access_denied
   \<and> write_file fs ''/etc/passwd'' d \<noteq> Failure access_denied
   \<and> list_directory fs ''/etc/passwd'' \<noteq> Failure access_denied
   \<and> CONFIG_BASE @ Path (lstrip '''' ''/'') = CONFIG_BASE
   \<and> resolve fs (CONFIG_BASE @ Path (lstrip '''' ''/'')) = resolve fs CONFIG_BASE
   \<and> read_file fs '''' \<noteq> Failure access_denied
   \<and> write_file fs '''' d \<noteq> Failure access_denied
   \<and> list_directory fs '''' \<noteq> Failure access_denied"
proof -
  let ?s' = "replicate k (CHR ''/'') @ s"
  have st: "lstrip ?s' ''/'' = lstrip s ''/''"
    by (rule lstrip_replicate)
  have denied: "str_exn e \<noteq> access_denied"
    if "(\<exists>er f. e = OSError er f) \<or> (\<exists>m. e = UnicodeDecodeError m) \<or> e = ValueError ''embedded null byte''" for e
    using that by (rule str_exn_not_denied)
  have r1: "(read_file fs ?s' = Read_Success c q n) \<longleftrightarrow> (read_file fs s = Read_Success c q n)"
    unfolding read_file_def read_file_run_eq st by (simp split: sum.splits)
  have r2: "(read_file fs ?s' = Failure access_denied) \<longleftrightarrow> (read_file fs s = Failure access_denied)"
  proof (cases "resolve fs (CONFIG_BASE @ Path (lstrip s ''/''))")
    case (Inl e)
    then show ?thesis unfolding read_file_def read_file_run_eq st by simp
  next
    case (Inr rf)
    show ?thesis
    proof (cases "startswith (str_abs rf) (str_abs CONFIG_BASE)")
      case True
      have "read_file fs ?s' \<noteq> Failure access_denied"
        using Inr True by (intro read_not_denied[where rf = rf]) (simp_all add: st)
      moreover have "read_file fs s \<noteq> Failure access_denied"
        using Inr True by (rule read_not_denied)
      ultimately show ?thesis by simp
    next
      case False
      with Inr show ?thesis unfolding read_file_def read_file_run_eq st by simp
    qed
  qed
  have w: "write_file_run fs ?s' d = write_file_run fs s d"
    unfolding write_file_run_eq st by (rule refl)
  have l1: "(list_directory fs ?s' = List_Success q es n) \<longleftrightarrow> (list_directory fs s = List_Success q es n)"
    unfolding list_directory_def list_directory_run_eq st by (simp split: sum.splits)
  have l2: "(list_directory fs ?s' = Failure access_denied) \<longleftrightarrow> (list_directory fs s = Failure access_denied)"
  proof (cases "resolve fs (CONFIG_BASE @ Path (lstrip s ''/''))")
    case (Inl e)
    then show ?thesis unfolding list_directory_def list_directory_run_eq st by simp
  next
    case (Inr rf)
    show ?thesis
    proof (cases "startswith (str_abs rf) (str_abs CONFIG_BASE)")
      case True
      have "list_directory fs ?s' \<noteq> Failure access_denied"
        using Inr True by (intro list_not_denied[where rf = rf]) (simp_all add: st)
      moreover have "list_directory fs s \<noteq> Failure access_denied"
        using Inr True by (rule list_not_denied)
      ultimately show ?thesis by simp
    next
      case False
      with Inr show ?thesis unfolding list_directory_def list_directory_run_eq st by simp
    qed
  qed
  have e: "resolve fs (CONFIG_BASE @ Path (lstrip ''/etc/passwd'' ''/'')) = Inr [''config'', ''etc'', ''passwd'']"
    by (simp only: etc_passwd_full etc_passwd_resolve)
  have e1: "read_file fs ''/etc/passwd'' \<noteq> Failure access_denied"
    by (rule read_not_denied[OF e etc_passwd_startswith])
  have e2: "write_file fs ''/etc/passwd'' d \<noteq> Failure access_denied"
    by (rule write_not_denied[OF e etc_passwd_startswith])
  have e3: "list_directory fs ''/etc/passwd'' \<noteq> Failure access_denied"
    by (rule list_not_denied[OF e etc_passwd_startswith])
  have z: "resolve fs (CONFIG_BASE @ Path (lstrip '''' ''/'')) = Inr CONFIG_BASE"
    by simp
  have z0: "startswith (str_abs CONFIG_BASE) (str_abs CONFIG_BASE)"
    by simp
  have z1: "read_file fs '''' \<noteq> Failure access_denied"
    by (rule read_not_denied[OF z z0])
  have z2: "write_file fs '''' d \<noteq> Failure access_denied"
    by (rule write_not_denied[OF z z0])
  have z3: "list_directory fs '''' \<noteq> Failure access_denied"
    by (rule list_not_denied[OF z z0])
  show ?thesis
    using st lstrip_no_leading[of s] r1 r2 w l1 l2 etc_passwd_full e1 e2 e3 z1 z2 z3
    by (simp add: write_file_def write_file_fs_def)
qed

theorem leading_separators_are_stripped_witness:
  "lstrip ''///b'' ''/'' = ''b''
   \<and> read_file example_fs ''///b'' = Read_Success ''hello'' ''b'' 5
   \<and> read_file example_fs ''b'' = Read_Success ''hello'' ''b'' 5
   \<and> read_file example_fs ''/etc/passwd'' = Failure ''File not found: /etc/passwd''
   \<and> list_directory example_fs ''/'' = list_directory example_fs ''''"
proof -
  have b: "read_file example_fs ''b'' = Read_Success ''hello'' ''b'' 5"
    and p: "read_file example_fs ''/etc/passwd'' = Failure ''File not found: /etc/passwd''"
    and l: "list_directory example_fs ''/'' = list_directory example_fs ''''"
    and s: "lstrip ''b'' ''/'' = ''b''"
    by code_simp+
  have k: "replicate 3 (CHR ''/'') @ ''b'' = ''///b''"
    by (simp add: numeral_3_eq_3)
  show ?thesis
    using leading_separators_are_stripped
      [where k = 3 and s = "''b''" and fs = example_fs and c = "''hello''" and q = "''b''"
        and n = 5 and d = "''x''" and es = "[]"] b p l s
    unfolding k by simp
qed

section \<open>Writing below directories that do not exist yet\<close>




section \<open>The listing of a directory\<close>

text \<open>
  C7, as amended. A successful \<^verbatim>\<open>list_directory\<close> in a well-formed file system reports
  exactly the entries \<open>es\<close> of the directory that \<^verbatim>\<open>full_path\<close> names, one entry per
  child and none for deeper levels, in the lexicographic order of their names; the
  type is \<^verbatim>\<open>directory\<close> for a directory and \<^verbatim>\<open>file\<close> for anything else; a size is
  present exactly when the child is a regular file; \<^verbatim>\<open>count\<close> is the number of
  entries; the reported path is empty when the cleaned request path has no component
  and is the cleaned request path otherwise; and a directory with the same children in another order gives the same result.
\<close>

theorem listing_is_sorted_children:
  assumes wf: "wf_node fs"
    and ok: "list_directory fs p = List_Success q entries n"
    and st: "os_stat fs (CONFIG_BASE @ Path (lstrip p ''/'')) = Inr (Dir es)"
  shows "map entry_name entries = sort (map fst es)
       \<and> sorted (map entry_name entries)
       \<and> (\<forall>e \<in> set entries. \<exists>ch. (entry_name e, ch) \<in> set es
             \<and> entry_type e = (case ch of Dir es' \<Rightarrow> ''directory'' | _ \<Rightarrow> ''file'')
             \<and> entry_size e = (case ch of File d \<Rightarrow> Some (st_size ch) | _ \<Rightarrow> None))
       \<and> n = length entries
       \<and> q = (if Path (lstrip p ''/'') = [] then [] else str (Path (lstrip p ''/'')))
       \<and> (\<forall>fs' es'. wf_node fs'
             \<and> os_stat fs' (CONFIG_BASE @ Path (lstrip p ''/'')) = Inr (Dir es')
             \<and> set es' = set es
             \<longrightarrow> list_directory fs' p = List_Success q entries n)"
proof -
  let ?full = "CONFIG_BASE @ Path (lstrip p ''/'')"
  let ?q = "if str (Path (lstrip p ''/'')) \<noteq> ''.'' then str (Path (lstrip p ''/'')) else []"
  from st obtain qd where l: "lookup fs qd = Some (Dir es)"
    by (auto simp: os_stat_walk)
  from wf_lookup[OF wf l] have dn: "distinct (map fst es)" by simp
  have es: "entries = map (\<lambda>c. entry_for c (the (map_of es c))) (sort (map fst es))"
    and n: "n = length es" and q: "q = ?q"
    by (rule listing_entries[OF wf ok st])+
  have 1: "map entry_name entries = sort (map fst es)"
    unfolding es by (simp add: comp_def)
  have 2: "sorted (map entry_name entries)"
    unfolding 1 by simp
  have 3: "\<forall>e \<in> set entries. \<exists>ch. (entry_name e, ch) \<in> set es
             \<and> entry_type e = (case ch of Dir es' \<Rightarrow> ''directory'' | _ \<Rightarrow> ''file'')
             \<and> entry_size e = (case ch of File d \<Rightarrow> Some (st_size ch) | _ \<Rightarrow> None)"
  proof
    fix e assume "e \<in> set entries"
    then obtain c where c: "c \<in> set (map fst es)" and e: "e = entry_for c (the (map_of es c))"
      unfolding es by auto
    from c obtain ch where ch: "map_of es c = Some ch"
      by (cases "map_of es c") (auto simp: map_of_eq_None_iff)
    then have "(c, ch) \<in> set es" by (rule map_of_SomeD)
    with e ch show "\<exists>ch. (entry_name e, ch) \<in> set es
             \<and> entry_type e = (case ch of Dir es' \<Rightarrow> ''directory'' | _ \<Rightarrow> ''file'')
             \<and> entry_size e = (case ch of File d \<Rightarrow> Some (st_size ch) | _ \<Rightarrow> None)"
      by (intro exI[of _ ch]) (simp add: entry_for_def)
  qed
  have 4: "n = length entries"
    unfolding es n by simp
  have 5: "q = (if Path (lstrip p ''/'') = [] then [] else str (Path (lstrip p ''/'')))"
    unfolding q by (rule str_Path_path)
  have 6: "list_directory fs' p = List_Success q entries n"
    if wf': "wf_node fs'" and st': "os_stat fs' ?full = Inr (Dir es')" and s: "set es' = set es"
    for fs' es'
  proof -
    from st' obtain qd' where "lookup fs' qd' = Some (Dir es')"
      by (auto simp: os_stat_walk)
    from wf_lookup[OF wf' this] have dn': "distinct (map fst es')" by simp
    from list_success_check[OF ok] obtain rf
      where rs: "resolve fs ?full = Inr rf"
        and sw: "startswith (str_abs rf) (str_abs CONFIG_BASE)" by blast
    from rs have rs': "resolve fs' ?full = Inr rf"
      by (simp add: resolve_fs_indep[of fs' _ fs])
    from listing[OF wf' st' rs' sw] same_children[OF dn dn' s]
    show ?thesis
      by (simp add: list_directory_def es n q)
  qed
  from 1 2 3 4 5 6 show ?thesis by blast
qed

theorem listing_is_sorted_children_witness:
  "wf_node example_fs
   \<and> list_directory example_fs '''' = List_Success [] example_entries 4
   \<and> map entry_name example_entries = [''.storage'', ''a'', ''b'', ''sock'']
   \<and> sorted (map entry_name example_entries)
   \<and> 4 = length example_entries
   \<and> list_directory example_fs_reordered '''' = List_Success [] example_entries 4"
proof -
  let ?es = "[(''b'', File (Text ''hello'')), (''.storage'', Dir []), (''sock'', Socket),
              (''a'', Dir [(''z'', File (Undecodable 3 '' 0xff in position 0''))])]"
  let ?es' = "[(''sock'', Socket),
               (''a'', Dir [(''z'', File (Undecodable 3 '' 0xff in position 0''))]),
               (''b'', File (Text ''hello'')), (''.storage'', Dir [])]"
  have wf: "wf_node example_fs" and wf': "wf_node example_fs_reordered"
    by code_simp+
  have ok: "list_directory example_fs '''' = List_Success [] example_entries 4"
    by code_simp
  have st: "os_stat example_fs (CONFIG_BASE @ Path (lstrip '''' ''/'')) = Inr (Dir ?es)"
    by code_simp
  have st': "os_stat example_fs_reordered (CONFIG_BASE @ Path (lstrip '''' ''/'')) = Inr (Dir ?es')"
    by code_simp
  have s: "set ?es' = set ?es"
    by auto
  have srt: "sort (map fst ?es) = [''.storage'', ''a'', ''b'', ''sock'']"
    by code_simp
  from listing_is_sorted_children [OF wf ok st] wf' st' s
  have "map entry_name example_entries = sort (map fst ?es)"
    and "sorted (map entry_name example_entries)"
    and "4 = length example_entries"
    and "list_directory example_fs_reordered '''' = List_Success [] example_entries 4"
    by blast+
  with wf ok srt show ?thesis by simp
qed


text \<open>
  C7 as stated fails in two places. The socket \<^verbatim>\<open>sock\<close> is reported with the type
  \<^verbatim>\<open>file\<close> and without a size, so the size is not present exactly for the type
  \<^verbatim>\<open>file\<close>. And the request \<^verbatim>\<open>a/..\<close>, whose target is the root itself, reports the path
  \<^verbatim>\<open>a/..\<close>, not the empty string.
\<close>

theorem size_not_exactly_for_type_file:
  "list_directory example_fs '''' = List_Success [] example_entries 4
   \<and> \<lparr>entry_name = ''sock'', entry_type = ''file'', entry_size = None\<rparr> \<in> set example_entries
   \<and> \<not> (\<forall>e \<in> set example_entries. (entry_size e \<noteq> None) = (entry_type e = ''file''))
   \<and> resolve example_fs (CONFIG_BASE @ Path (lstrip ''a/..'' ''/'')) = Inr CONFIG_BASE
   \<and> list_directory example_fs ''a/..'' = List_Success ''a/..'' example_entries 4"
  by code_simp

section \<open>Messages for a missing target and for a target of the wrong type\<close>



section \<open>Children that are neither directories nor regular files\<close>

text \<open>
  C9. In a successful listing, a child \<open>c\<close> that is no directory has the type
  \<^verbatim>\<open>file\<close>, and its size is present only when it is a regular file: the entry of a
  socket is \<open>(c, file)\<close> without a size.
\<close>

theorem children_that_are_no_directories:
  assumes wf: "wf_node fs"
    and ok: "list_directory fs p = List_Success q entries n"
    and st: "os_stat fs (CONFIG_BASE @ Path (lstrip p ''/'')) = Inr (Dir es)"
    and ch: "(c, ch) \<in> set es"
    and nd: "\<forall>es'. ch \<noteq> Dir es'"
  shows "\<lparr>entry_name = c, entry_type = ''file'',
          entry_size = (case ch of File d \<Rightarrow> Some (st_size ch) | _ \<Rightarrow> None)\<rparr> \<in> set entries
       \<and> (\<forall>e \<in> set entries. entry_name e = c \<longrightarrow>
             entry_type e = ''file'' \<and> (entry_size e \<noteq> None \<longleftrightarrow> (\<exists>d. ch = File d)))"
proof -
  from st obtain qd where l: "lookup fs qd = Some (Dir es)"
    by (auto simp: os_stat_walk)
  from wf_lookup[OF wf l] have dn: "distinct (map fst es)" by simp
  from map_of_distinct_mem[OF dn ch] have m: "map_of es c = Some ch" .
  have es: "entries = map (\<lambda>c. entry_for c (the (map_of es c))) (sort (map fst es))"
    by (rule listing_entries(1)[OF wf ok st])
  from ch have cin: "c \<in> set (sort (map fst es))" by force
  have ef: "entry_for c ch = \<lparr>entry_name = c, entry_type = ''file'',
          entry_size = (case ch of File d \<Rightarrow> Some (st_size ch) | _ \<Rightarrow> None)\<rparr>"
    using nd by (cases ch) (simp_all add: entry_for_def)
  from cin have "entry_for c (the (map_of es c)) \<in> set entries"
    unfolding es by (simp del: set_sort)
  with m ef
  have 1: "\<lparr>entry_name = c, entry_type = ''file'',
          entry_size = (case ch of File d \<Rightarrow> Some (st_size ch) | _ \<Rightarrow> None)\<rparr> \<in> set entries"
    by simp
  have 2: "\<forall>e \<in> set entries. entry_name e = c \<longrightarrow>
           entry_type e = ''file'' \<and> (entry_size e \<noteq> None \<longleftrightarrow> (\<exists>d. ch = File d))"
  proof (intro ballI impI)
    fix e assume e: "e \<in> set entries" and n: "entry_name e = c"
    from e obtain c' where "e = entry_for c' (the (map_of es c'))"
      unfolding es by auto
    with n m have "e = entry_for c ch" by simp
    with nd show "entry_type e = ''file'' \<and> (entry_size e \<noteq> None \<longleftrightarrow> (\<exists>d. ch = File d))"
      by (cases ch) simp_all
  qed
  from 1 2 show ?thesis by simp
qed

theorem children_that_are_no_directories_witness:
  "wf_node example_fs
   \<and> list_directory example_fs '''' = List_Success []
       [\<lparr>entry_name = ''.storage'', entry_type = ''directory'', entry_size = None\<rparr>,
        \<lparr>entry_name = ''a'', entry_type = ''directory'', entry_size = None\<rparr>,
        \<lparr>entry_name = ''b'', entry_type = ''file'', entry_size = Some 5\<rparr>,
        \<lparr>entry_name = ''sock'', entry_type = ''file'', entry_size = None\<rparr>] 4
   \<and> \<lparr>entry_name = ''sock'', entry_type = ''file'', entry_size = None\<rparr>
       \<in> set [\<lparr>entry_name = ''.storage'', entry_type = ''directory'', entry_size = None\<rparr>,
        \<lparr>entry_name = ''a'', entry_type = ''directory'', entry_size = None\<rparr>,
        \<lparr>entry_name = ''b'', entry_type = ''file'', entry_size = Some 5\<rparr>,
        \<lparr>entry_name = ''sock'', entry_type = ''file'', entry_size = None\<rparr>]"
proof -
  have wf: "wf_node example_fs"
    by code_simp
  have ok: "list_directory example_fs '''' = List_Success []
       [\<lparr>entry_name = ''.storage'', entry_type = ''directory'', entry_size = None\<rparr>,
        \<lparr>entry_name = ''a'', entry_type = ''directory'', entry_size = None\<rparr>,
        \<lparr>entry_name = ''b'', entry_type = ''file'', entry_size = Some 5\<rparr>,
        \<lparr>entry_name = ''sock'', entry_type = ''file'', entry_size = None\<rparr>] 4"
    by code_simp
  have st: "os_stat example_fs (CONFIG_BASE @ Path (lstrip '''' ''/'')) =
      Inr (Dir [(''b'', File (Text ''hello'')), (''.storage'', Dir []), (''sock'', Socket),
                (''a'', Dir [(''z'', File (Undecodable 3 '' 0xff in position 0''))])])"
    by code_simp
  have ch: "(''sock'', Socket) \<in> set [(''b'', File (Text ''hello'')), (''.storage'', Dir []),
      (''sock'', Socket), (''a'', Dir [(''z'', File (Undecodable 3 '' 0xff in position 0''))])]"
    by simp
  have nd: "\<forall>es'. Socket \<noteq> Dir es'"
    by simp
  from children_that_are_no_directories [OF wf ok st ch nd] wf ok
  show ?thesis by simp
qed


section \<open>The empty request path\<close>

text \<open>
  C10. For the empty path \<^verbatim>\<open>read_file\<close> resolves \<^verbatim>\<open>/config\<close> itself, the same path as
  the base, so the answer is never the containment failure. When \<^verbatim>\<open>/config\<close> is a
  directory the answer is \<^verbatim>\<open>Not a file: \<close> followed by the empty path, and no file
  is read.
\<close>

theorem read_file_empty_path:
  "resolve fs (CONFIG_BASE @ Path (lstrip '''' ''/'')) = resolve fs CONFIG_BASE \<and>
   read_file fs '''' \<noteq> Failure access_denied \<and>
   (is_dir fs CONFIG_BASE \<longrightarrow>
      read_file fs '''' = Failure ''Not a file: '' \<and> read_file_io fs '''' = [])"
proof -
  have 1: "read_file fs '''' \<noteq> Failure access_denied"
    by (auto simp add: read_file_def read_file_run_def read_file_body_def access_denied_def
          read_text_def split: sum.splits node.splits contents.splits)
  have 2: "read_file fs '''' = Failure ''Not a file: '' \<and> read_file_io fs '''' = []"
    if "is_dir fs CONFIG_BASE"
    using that is_dir_exists[OF that] is_dir_not_file[OF that]
    by (simp add: read_file_def read_file_io_def read_file_run_def read_file_body_def)
  show ?thesis using 1 2 by simp
qed

theorem read_file_empty_path_witness:
  "is_dir example_fs CONFIG_BASE
   \<and> read_file example_fs '''' = Failure ''Not a file: ''
   \<and> read_file_io example_fs '''' = []
   \<and> read_file example_fs '''' \<noteq> Failure access_denied"
proof -
  have d: "is_dir example_fs CONFIG_BASE"
    by code_simp
  show ?thesis
    using read_file_empty_path [of example_fs] d by (simp add: access_denied_def)
qed

end
